theory Spec2Isabelle
  imports Complex_Main "HOL-Library.AList"
begin

section \<open>JavaScript numbers\<close>

text \<open>
  The fee functions of \<^verbatim>\<open>packages/common/src/Utils.ts\<close> compute on the JavaScript
  type \<^verbatim>\<open>number\<close>, the IEEE 754 binary64 format. A number is a finite value, one of
  the two infinities, or NaN. A finite value other than the negative zero is \<open>Num x\<close>,
  with \<open>x\<close> the real number it stands for, so \<open>Num 0\<close> is the positive zero; the negative
  zero is a value of its own. An arithmetic operation yields its exact real result
  rounded to the nearest double, a tie going to the even significand; it overflows to
  an infinity and underflows to a zero of the sign of the exact result. NaN compares
  false with everything and spreads through every operation.
\<close>

datatype number = Num real | NegZero | PosInfinity | NegInfinity | NaN

text \<open>
  The sign bit of a number, whether it is finite, the real value of a finite number,
  whether it is one of the two zeros, and the zero and the infinity of a given sign.
\<close>

fun negative :: "number \<Rightarrow> bool" where
  "negative (Num a) = (a < 0)"
| "negative NegZero = True"
| "negative NegInfinity = True"
| "negative _ = False"

fun isFinite :: "number \<Rightarrow> bool" where
  "isFinite (Num a) = True"
| "isFinite NegZero = True"
| "isFinite _ = False"

fun val :: "number \<Rightarrow> real" where
  "val (Num a) = a"
| "val _ = 0"

definition isZero :: "number \<Rightarrow> bool" where
  "isZero a = (isFinite a \<and> val a = 0)"

definition zero_of :: "bool \<Rightarrow> number" where
  "zero_of neg = (if neg then NegZero else Num 0)"

definition infinity_of :: "bool \<Rightarrow> number" where
  "infinity_of neg = (if neg then NegInfinity else PosInfinity)"

text \<open>
  Rounding a real number to a double. \<open>pow2 e\<close> is \<open>2\<close> to the power \<open>e\<close>, and
  \<open>roundEven y\<close> the integer nearest to \<open>y\<close>, the even one of the two when \<open>y\<close> lies
  half way. A double has a significand of 53 bits: with \<open>e\<close> the binary exponent of
  \<open>x\<close>, which is \<open>floor (log 2 \<bar>x\<bar>)\<close> and not below \<open>-1022\<close> (below it the doubles are
  the subnormal ones, equally spaced), the doubles around \<open>x\<close> are the multiples of
  \<open>u = 2^(e - 52)\<close>, and \<open>fl x\<close> is the multiple nearest to \<open>x\<close>. A result of
  magnitude \<open>2^1024\<close> is beyond the largest double and becomes an infinity.
\<close>

definition pow2 :: "int \<Rightarrow> real" where
  "pow2 e = (if 0 \<le> e then 2 ^ nat e else 1 / 2 ^ nat (- e))"

definition roundEven :: "real \<Rightarrow> int" where
  "roundEven y =
     (let f = \<lfloor>y\<rfloor>; d = y - of_int f
      in if d < 1 / 2 then f else if 1 / 2 < d then f + 1 else if even f then f else f + 1)"

definition fl :: "real \<Rightarrow> number" where
  "fl x =
     (if x = 0 then Num 0
      else
        let e = max \<lfloor>log 2 \<bar>x\<bar>\<rfloor> (- 1022);
            u = pow2 (e - 52);
            r = of_int (roundEven (x / u)) * u
        in if pow2 1024 \<le> \<bar>r\<bar> then infinity_of (x < 0)
           else if r = 0 then zero_of (x < 0)
           else Num r)"

text \<open>\<^verbatim>\<open>a >= b\<close>; the two zeros are equal.\<close>

fun num_ge :: "number \<Rightarrow> number \<Rightarrow> bool" where
  "num_ge NaN _ = False"
| "num_ge _ NaN = False"
| "num_ge PosInfinity _ = True"
| "num_ge _ NegInfinity = True"
| "num_ge NegInfinity _ = False"
| "num_ge _ PosInfinity = False"
| "num_ge a b = (val a \<ge> val b)"

text \<open>
  \<^verbatim>\<open>a - b\<close>. A difference that is exactly zero is the positive zero, except
  \<open>(-0) - (+0)\<close>, which is the negative one.
\<close>

fun num_minus :: "number \<Rightarrow> number \<Rightarrow> number" where
  "num_minus NaN _ = NaN"
| "num_minus _ NaN = NaN"
| "num_minus PosInfinity PosInfinity = NaN"
| "num_minus NegInfinity NegInfinity = NaN"
| "num_minus PosInfinity _ = PosInfinity"
| "num_minus NegInfinity _ = NegInfinity"
| "num_minus _ PosInfinity = NegInfinity"
| "num_minus _ NegInfinity = PosInfinity"
| "num_minus NegZero NegZero = Num 0"
| "num_minus NegZero (Num b) = (if b = 0 then NegZero else fl (- b))"
| "num_minus (Num a) b = fl (a - val b)"

text \<open>
  \<^verbatim>\<open>a * b\<close>. The sign of the result is the product of the signs; an infinity times a
  zero is NaN.
\<close>

definition num_times :: "number \<Rightarrow> number \<Rightarrow> number" where
  "num_times a b =
     (if a = NaN \<or> b = NaN then NaN
      else if \<not> isFinite a \<or> \<not> isFinite b
      then (if isZero a \<or> isZero b then NaN else infinity_of (negative a \<noteq> negative b))
      else if isZero a \<or> isZero b then zero_of (negative a \<noteq> negative b)
      else fl (val a * val b))"

text \<open>
  \<^verbatim>\<open>a / b\<close>. The sign of the result is the product of the signs; a nonzero number
  divided by a zero is an infinity, a zero divided by a zero and an infinity divided
  by an infinity are NaN, and a finite number divided by an infinity is a zero.
\<close>

definition num_divide :: "number \<Rightarrow> number \<Rightarrow> number" where
  "num_divide a b =
     (if a = NaN \<or> b = NaN then NaN
      else if \<not> isFinite a
      then (if \<not> isFinite b then NaN else infinity_of (negative a \<noteq> negative b))
      else if \<not> isFinite b then zero_of (negative a \<noteq> negative b)
      else if isZero b
      then (if isZero a then NaN else infinity_of (negative a \<noteq> negative b))
      else if isZero a then zero_of (negative a \<noteq> negative b)
      else fl (val a / val b))"

text \<open>
  \<^verbatim>\<open>Math.round(x)\<close>: the integer nearest to \<open>x\<close>, a tie going to the larger one,
  which is \<open>floor (x + 1/2)\<close> computed exactly; the result is the negative zero for
  \<open>x\<close> from \<open>-1/2\<close> up to the negative zero; infinities and NaN are returned as they
  are.
\<close>

fun Math_round :: "number \<Rightarrow> number" where
  "Math_round (Num x) = (let n = \<lfloor>x + 1 / 2\<rfloor> in if n = 0 \<and> x < 0 then NegZero else Num (of_int n))"
| "Math_round x = x"

text \<open>
  \<^verbatim>\<open>Math.max(a, b)\<close>: NaN when either argument is NaN, the larger argument otherwise,
  the positive zero being larger than the negative one.
\<close>

definition Math_max :: "number \<Rightarrow> number \<Rightarrow> number" where
  "Math_max a b =
     (if a = NaN \<or> b = NaN then NaN
      else if isZero a \<and> isZero b then zero_of (negative a \<and> negative b)
      else if num_ge a b then a else b)"

text \<open>Vocabulary for the statements: a finite number whose value is an integer.\<close>

fun isInteger :: "number \<Rightarrow> bool" where
  "isInteger (Num x) = (x = of_int \<lfloor>x\<rfloor>)"
| "isInteger NegZero = True"
| "isInteger _ = False"

section \<open>Fee negotiation\<close>

record GasCostParameter =
  newValue :: number
  deltaPercent :: number

text \<open>
  \<^verbatim>\<open>
  export function adjustGasCostParameterUp (clientInput: number, pingResponseMinimum: number) {
    if (clientInput >= pingResponseMinimum) {
      return { newValue: clientInput, deltaPercent: 0 }
    }
    const deltaPercent = Math.round(((pingResponseMinimum - clientInput) * 100) / clientInput)
    return { newValue: pingResponseMinimum, deltaPercent }
  }
  \<close>
\<close>

definition adjustGasCostParameterUp :: "number \<Rightarrow> number \<Rightarrow> GasCostParameter" where
  "adjustGasCostParameterUp clientInput pingResponseMinimum =
     (if num_ge clientInput pingResponseMinimum
      then \<lparr>newValue = clientInput, deltaPercent = Num 0\<rparr>
      else
        let deltaPercent =
          Math_round (num_divide (num_times (num_minus pingResponseMinimum clientInput) (Num 100))
                                 clientInput)
        in \<lparr>newValue = pingResponseMinimum, deltaPercent = deltaPercent\<rparr>)"

text \<open>
  \<^verbatim>\<open>parseInt(string)\<close> with no radix, as ECMAScript defines it: leading white space is
  dropped, then an optional sign, then the prefix \<^verbatim>\<open>0x\<close> or \<^verbatim>\<open>0X\<close> selects radix 16
  (radix 10 without it); the longest run of digits of that radix is read, and the result
  is NaN when that run is empty. The integer read is a zero of the sign when it is 0
  and is rounded to a double otherwise. Strings are byte strings here, so the white
  space is the ASCII white space.
\<close>

definition isWhiteSpace :: "char \<Rightarrow> bool" where
  "isWhiteSpace c = (c \<in> set [CHR '' '', CHR 0x09, CHR 0x0A, CHR 0x0B, CHR 0x0C, CHR 0x0D])"

definition digitValue :: "char \<Rightarrow> nat option" where
  "digitValue c =
     (let n = (of_char c :: nat) in
      if 48 \<le> n \<and> n \<le> 57 then Some (n - 48)
      else if 97 \<le> n \<and> n \<le> 122 then Some (n - 87)
      else if 65 \<le> n \<and> n \<le> 90 then Some (n - 55)
      else None)"

definition isRadixDigit :: "nat \<Rightarrow> char \<Rightarrow> bool" where
  "isRadixDigit R c = (case digitValue c of Some d \<Rightarrow> d < R | None \<Rightarrow> False)"

definition digitsValue :: "nat \<Rightarrow> string \<Rightarrow> nat" where
  "digitsValue R Z = foldl (\<lambda>acc c. acc * R + the (digitValue c)) 0 Z"

definition parseInt :: "string \<Rightarrow> number" where
  "parseInt inputString =
     (let S = dropWhile isWhiteSpace inputString;
          sign = (if S \<noteq> [] \<and> hd S = CHR ''-'' then - 1 else (1::int));
          S = (if S \<noteq> [] \<and> (hd S = CHR ''+'' \<or> hd S = CHR ''-'') then tl S else S);
          hex = (take 2 S = ''0x'' \<or> take 2 S = ''0X'');
          R = (if hex then 16 else 10);
          S = (if hex then drop 2 S else S);
          Z = takeWhile (isRadixDigit R) S;
          mathInt = int (digitsValue R Z)
      in if Z = [] then NaN
         else if mathInt = 0 then zero_of (sign = - 1)
         else fl (of_int (sign * mathInt)))"

text \<open>
  The fee records. Their declarations (\<^verbatim>\<open>types/Aliases\<close>, \<^verbatim>\<open>types/RelayInfo\<close>) are
  not among the sources; the fields are the ones \<^verbatim>\<open>adjustRelayRequestForPingResponse\<close>
  reads and writes, all of them strings since they go through \<^verbatim>\<open>parseInt\<close>.
\<close>

record EIP1559Fees =
  maxFeePerGas :: string
  maxPriorityFeePerGas :: string

record PingResponse =
  minMaxPriorityFeePerGas :: string
  minMaxFeePerGas :: string

record PartialRelayInfo =
  pingResponse :: PingResponse

record RelaySelectionResult =
  relayInfo :: PartialRelayInfo
  maxDeltaPercent :: number
  updatedGasFees :: EIP1559Fees

text \<open>
  \<^verbatim>\<open>
  export function adjustRelayRequestForPingResponse (feesIn, relayInfo): RelaySelectionResult {
    const maxPriorityFeePerGas = adjustGasCostParameterUp(
      parseInt(feesIn.maxPriorityFeePerGas),
      parseInt(relayInfo.pingResponse.minMaxPriorityFeePerGas))
    const maxFeePerGas = adjustGasCostParameterUp(
      parseInt(feesIn.maxFeePerGas),
      parseInt(relayInfo.pingResponse.minMaxFeePerGas))
    const updatedGasFees: EIP1559Fees = {
      maxPriorityFeePerGas: toHex(maxPriorityFeePerGas.newValue),
      maxFeePerGas: toHex(maxFeePerGas.newValue)
    }
    const maxDeltaPercent = Math.max(maxFeePerGas.deltaPercent, maxPriorityFeePerGas.deltaPercent)
    return { relayInfo, maxDeltaPercent, updatedGasFees }
  }
  \<close>
  \<^verbatim>\<open>toHex\<close> comes from \<^verbatim>\<open>web3js/Web3JSUtils\<close>, which is not among the sources: it is
  a parameter of the model. The local constants carry a prime, since their names are
  also the names of the fields.
\<close>

definition adjustRelayRequestForPingResponse ::
  "(number \<Rightarrow> string) \<Rightarrow> EIP1559Fees \<Rightarrow> PartialRelayInfo \<Rightarrow> RelaySelectionResult" where
  "adjustRelayRequestForPingResponse toHex feesIn relayInfo' =
     (let maxPriorityFeePerGas' = adjustGasCostParameterUp
            (parseInt (maxPriorityFeePerGas feesIn))
            (parseInt (minMaxPriorityFeePerGas (pingResponse relayInfo')));
          maxFeePerGas' = adjustGasCostParameterUp
            (parseInt (maxFeePerGas feesIn))
            (parseInt (minMaxFeePerGas (pingResponse relayInfo')));
          updatedGasFees' = \<lparr>maxFeePerGas = toHex (newValue maxFeePerGas'),
                             maxPriorityFeePerGas = toHex (newValue maxPriorityFeePerGas')\<rparr>;
          maxDeltaPercent' = Math_max (deltaPercent maxFeePerGas') (deltaPercent maxPriorityFeePerGas')
      in \<lparr>relayInfo = relayInfo', maxDeltaPercent = maxDeltaPercent',
          updatedGasFees = updatedGasFees'\<rparr>)"

text \<open>
  A hexadecimal rendering of a non-negative integer (\<^verbatim>\<open>0x\<close> and the digits), to put in
  place of \<^verbatim>\<open>toHex\<close> when an example is evaluated; every other number is rendered by
  its name.
\<close>

fun hexDigits :: "nat \<Rightarrow> string" where
  "hexDigits n =
     (if n < 16 then [''0123456789abcdef'' ! n]
      else hexDigits (n div 16) @ [''0123456789abcdef'' ! (n mod 16)])"

fun hexOfNumber :: "number \<Rightarrow> string" where
  "hexOfNumber (Num x) = (if x < 0 then ''-0x'' @ hexDigits (nat \<lfloor>- x\<rfloor>) else ''0x'' @ hexDigits (nat \<lfloor>x\<rfloor>))"
| "hexOfNumber NegZero = ''0x0''"
| "hexOfNumber PosInfinity = ''Infinity''"
| "hexOfNumber NegInfinity = ''-Infinity''"
| "hexOfNumber NaN = ''NaN''"

section \<open>The race: waitForSuccess\<close>

text \<open>
  \<^verbatim>\<open>
  export interface WaitForSuccessResults<T> {
    results: T[]
    errors: Map<string, Error>
  }
  \<close>
  A JavaScript \<^verbatim>\<open>Map\<close> keeps its entries in insertion order and \<^verbatim>\<open>set\<close> on a key it
  already holds replaces the value where it stands: an association list under
  \<open>AList.update\<close>, whose length is \<^verbatim>\<open>size\<close>. An \<^verbatim>\<open>Error\<close> is its message.
\<close>

datatype error = Error string

record 'a WaitForSuccessResults =
  results :: "'a list"
  errors :: "(string \<times> error) list"

text \<open>
  A promise handed to \<^verbatim>\<open>waitForSuccess\<close> is given by its fate: \<open>Some (t, x)\<close> when it
  settles \<open>t\<close> milliseconds after the call (0 for a promise that is settled already),
  fulfilled with a value or rejected with an error, and \<open>None\<close> when it never settles.
  Times are whole numbers of milliseconds.
\<close>

datatype 'a settlement = Fulfilled 'a | Rejected error

type_synonym 'a promise = "(nat \<times> 'a settlement) option"

text \<open>An arrival: the time, the index \<open>i\<close> of \<^verbatim>\<open>promises[i]\<close>, and how it settled.\<close>

type_synonym 'a arrival = "nat \<times> nat \<times> 'a settlement"

text \<open>
  The state of one call once the executor of \<^verbatim>\<open>new Promise\<close> has run: the object
  \<^verbatim>\<open>ret\<close>, the due time of the timer set by \<^verbatim>\<open>setTimeout(complete, graceTime)\<close> while it
  is pending, and the time at which \<^verbatim>\<open>resolve(ret)\<close> was first called. \<^verbatim>\<open>resolve\<close> is
  handed the object itself, not a copy: whoever holds the resolved value reads the
  field \<open>ret\<close> of the current state, and the handlers go on writing to it.
\<close>

record 'a race =
  ret :: "'a WaitForSuccessResults"
  timer :: "nat option"
  resolvedAt :: "nat option"

definition newRace :: "'a race" where
  "newRace = \<lparr>ret = \<lparr>results = [], errors = []\<rparr>, timer = None, resolvedAt = None\<rparr>"

text \<open>\<^verbatim>\<open>function complete (): void { resolve(ret) }\<close>; resolving a resolved promise does nothing.\<close>

definition complete :: "nat \<Rightarrow> 'a race \<Rightarrow> 'a race" where
  "complete t s = (if resolvedAt s = None then s\<lparr>resolvedAt := Some t\<rparr> else s)"

text \<open>
  \<^verbatim>\<open>setTimeout(callback, delay)\<close> is the one of Node.js (\<^verbatim>\<open>lib/internal/timers.js\<close>):
  a delay that is not a number from 1 to 2147483647 (\<open>2^31 - 1\<close>) is set to 1, and
  the delay is truncated to whole milliseconds. The only callback ever passed is
  \<^verbatim>\<open>complete\<close>, and the call is made once, so the state holds one timer.
\<close>

definition timeoutDelay :: "number \<Rightarrow> nat" where
  "timeoutDelay delay =
     (case delay of
        Num x \<Rightarrow> if 1 \<le> x \<and> x \<le> 2147483647 then nat \<lfloor>x\<rfloor> else 1
      | _ \<Rightarrow> 1)"

definition setTimeout :: "number \<Rightarrow> nat \<Rightarrow> 'a race \<Rightarrow> 'a race" where
  "setTimeout delay t s = s\<lparr>timer := Some (t + timeoutDelay delay)\<rparr>"

text \<open>
  \<^verbatim>\<open>
  .then(result => {
    ret.results.push(result)
    if (ret.results.length === 1) {
      setTimeout(complete, graceTime)
    }
  })
  \<close>
\<close>

definition onThen :: "number \<Rightarrow> nat \<Rightarrow> 'a \<Rightarrow> 'a race \<Rightarrow> 'a race" where
  "onThen graceTime t result s =
     (let s' = s\<lparr>ret := (ret s)\<lparr>results := results (ret s) @ [result]\<rparr>\<rparr>
      in if length (results (ret s')) = 1 then setTimeout graceTime t s' else s')"

text \<open>\<^verbatim>\<open>.catch(err => { ret.errors.set(errorKeys[i], err) })\<close>\<close>

definition onCatch :: "string list \<Rightarrow> nat \<Rightarrow> error \<Rightarrow> 'a race \<Rightarrow> 'a race" where
  "onCatch errorKeys i err s =
     s\<lparr>ret := (ret s)\<lparr>errors := AList.update (errorKeys ! i) err (errors (ret s))\<rparr>\<rparr>"

text \<open>
  \<^verbatim>\<open>
  .finally(() => {
    if (ret.results.length + ret.errors.size === promises.length) {
      complete()
    }
  })
  \<close>
\<close>

definition onFinally :: "nat \<Rightarrow> nat \<Rightarrow> 'a race \<Rightarrow> 'a race" where
  "onFinally n t s =
     (if length (results (ret s)) + length (errors (ret s)) = n then complete t s else s)"

text \<open>
  The handlers of \<^verbatim>\<open>promises[i]\<close> when it settles at time \<open>t\<close>: \<^verbatim>\<open>then\<close> or \<^verbatim>\<open>catch\<close>,
  followed by \<^verbatim>\<open>finally\<close>; \<open>n\<close> is \<^verbatim>\<open>promises.length\<close>.
\<close>

fun settle :: "string list \<Rightarrow> number \<Rightarrow> nat \<Rightarrow> 'a arrival \<Rightarrow> 'a race \<Rightarrow> 'a race" where
  "settle errorKeys graceTime n (t, i, Fulfilled result) s = onFinally n t (onThen graceTime t result s)"
| "settle errorKeys graceTime n (t, i, Rejected err) s = onFinally n t (onCatch errorKeys i err s)"

text \<open>The timer callback: the pending timer, if any, runs \<^verbatim>\<open>complete\<close> at its due time.\<close>

definition fireTimer :: "'a race \<Rightarrow> 'a race" where
  "fireTimer s = (case timer s of Some d \<Rightarrow> complete d (s\<lparr>timer := None\<rparr>) | None \<Rightarrow> s)"

definition timerDueBefore :: "'a race \<Rightarrow> nat \<Rightarrow> bool" where
  "timerDueBefore s t = (case timer s of Some d \<Rightarrow> d < t | None \<Rightarrow> False)"

text \<open>
  The event loop. The promises that settle arrive in the order of their times, those of
  one time in the order of their indices (the order in which the handlers were
  attached). The timer callback runs at its due time, after the handlers of a promise
  that settles at that very time and before those of any later one; when no arrival is
  left, a pending timer still fires.
\<close>

fun settledFrom :: "nat \<Rightarrow> 'a promise list \<Rightarrow> 'a arrival list" where
  "settledFrom i [] = []"
| "settledFrom i (None # promises) = settledFrom (Suc i) promises"
| "settledFrom i (Some (t, x) # promises) = (t, i, x) # settledFrom (Suc i) promises"

definition arrivals :: "'a promise list \<Rightarrow> 'a arrival list" where
  "arrivals promises = sort_key fst (settledFrom 0 promises)"

text \<open>All that ever happens to the object \<^verbatim>\<open>ret\<close>: every arrival is handled.\<close>

fun eventLoop :: "string list \<Rightarrow> number \<Rightarrow> nat \<Rightarrow> 'a arrival list \<Rightarrow> 'a race \<Rightarrow> 'a race" where
  "eventLoop errorKeys graceTime n [] s = fireTimer s"
| "eventLoop errorKeys graceTime n (a # as) s =
     eventLoop errorKeys graceTime n as
       (settle errorKeys graceTime n a (if timerDueBefore s (fst a) then fireTimer s else s))"

text \<open>
  \<^verbatim>\<open>await new Promise(...)\<close>: the state at the moment the promise is resolved, which is
  what the caller's continuation finds, or \<open>None\<close> when the promise stays pending for
  ever.
\<close>

fun awaitResolved ::
  "string list \<Rightarrow> number \<Rightarrow> nat \<Rightarrow> 'a arrival list \<Rightarrow> 'a race \<Rightarrow> 'a race option" where
  "awaitResolved errorKeys graceTime n [] s =
     (let s' = fireTimer s in if resolvedAt s' = None then None else Some s')"
| "awaitResolved errorKeys graceTime n (a # as) s =
     (let s1 = (if timerDueBefore s (fst a) then fireTimer s else s) in
      if resolvedAt s1 \<noteq> None then Some s1
      else
        let s2 = settle errorKeys graceTime n a s1 in
        if resolvedAt s2 \<noteq> None then Some s2
        else awaitResolved errorKeys graceTime n as s2)"

text \<open>\<^verbatim>\<open>Array.prototype.indexOf\<close>: the first index of the element, \<open>-1\<close> when it is absent.\<close>

fun indexOfFrom :: "'a list \<Rightarrow> 'a \<Rightarrow> int \<Rightarrow> int" where
  "indexOfFrom [] x k = - 1"
| "indexOfFrom (y # ys) x k = (if y = x then k else indexOfFrom ys x (k + 1))"

definition indexOf :: "'a list \<Rightarrow> 'a \<Rightarrow> int" where
  "indexOf xs x = indexOfFrom xs x 0"

text \<open>
  \<^verbatim>\<open>
  for (let i = 0; i < errorKeys.length; i++) {
    const indexOfKey = errorKeys.indexOf(errorKeys[i])
    if (indexOfKey !== i) {
      throw new Error('waitForSuccess: duplicate relay URL keys, aborting')
    }
  }
  \<close>
\<close>

function checkKeys :: "string list \<Rightarrow> nat \<Rightarrow> error option" where
  "checkKeys errorKeys i =
     (if i < length errorKeys then
        (let indexOfKey = indexOf errorKeys (errorKeys ! i) in
         if indexOfKey \<noteq> int i
         then Some (Error ''waitForSuccess: duplicate relay URL keys, aborting'')
         else checkKeys errorKeys (i + 1))
      else None)"
  by pat_completeness auto
termination
  by (relation "measure (\<lambda>(errorKeys, i). length errorKeys - i)") auto

declare checkKeys.simps [simp del]

text \<open>
  \<^verbatim>\<open>
  export async function waitForSuccess<T> (promises, errorKeys, graceTime) {
    if (promises.length !== errorKeys.length) {
      throw new Error('Invalid errorKeys length')
    }
    for ... (the loop above)
    return await new Promise((resolve) => {
      const ret = { errors: new Map<string, Error>(), results: [] }
      function complete (): void { resolve(ret) }
      for (let i = 0; i < promises.length; i++) {
        promises[i].then(...).catch(...).finally(...)
      }
    })
  }
  \<close>
  The result is \<open>Inl e\<close> when the body throws \<open>e\<close> before it creates the promise (the
  function is \<^verbatim>\<open>async\<close>: the caller gets the error as the rejection of the returned
  promise); \<open>Inr None\<close> when the promise is created and never resolved; \<open>Inr (Some s)\<close>
  when it is resolved, with the state \<open>s\<close> of that moment.
\<close>

definition waitForSuccess ::
  "'a promise list \<Rightarrow> string list \<Rightarrow> number \<Rightarrow> error + 'a race option" where
  "waitForSuccess promises errorKeys graceTime =
     (if length promises \<noteq> length errorKeys then Inl (Error ''Invalid errorKeys length'')
      else case checkKeys errorKeys 0 of
        Some e \<Rightarrow> Inl e
      | None \<Rightarrow> Inr (awaitResolved errorKeys graceTime (length promises) (arrivals promises) newRace))"

text \<open>
  The object \<^verbatim>\<open>ret\<close> of a call that passed the checks, once every arrival has been
  handled: what the holder of the resolved value reads from it in the end.
\<close>

definition retInTheEnd ::
  "'a promise list \<Rightarrow> string list \<Rightarrow> number \<Rightarrow> 'a WaitForSuccessResults" where
  "retInTheEnd promises errorKeys graceTime =
     ret (eventLoop errorKeys graceTime (length promises) (arrivals promises) newRace)"

text \<open>
  Vocabulary for the statements about a race: the values of the fulfilled promises
  among some arrivals, and the entries (key and error) of the rejected ones, both in the
  order of arrival.
\<close>

fun successes :: "'a arrival list \<Rightarrow> 'a list" where
  "successes [] = []"
| "successes ((t, i, Fulfilled v) # as) = v # successes as"
| "successes ((t, i, Rejected e) # as) = successes as"

fun failures :: "string list \<Rightarrow> 'a arrival list \<Rightarrow> (string \<times> error) list" where
  "failures errorKeys [] = []"
| "failures errorKeys ((t, i, Fulfilled v) # as) = failures errorKeys as"
| "failures errorKeys ((t, i, Rejected e) # as) = (errorKeys ! i, e) # failures errorKeys as"

section \<open>The price oracle fetcher\<close>

text \<open>
  Modelled from the spec: the class \<^verbatim>\<open>GasPriceFetcher\<close> (\<^verbatim>\<open>relayclient/GasPriceFetcher\<close>)
  with its methods \<^verbatim>\<open>getGasPrice\<close> and \<^verbatim>\<open>getJsonElement\<close>, of which only the test
  \<^verbatim>\<open>test/relayserver/GasPriceFetcher.test.ts\<close> is among the sources. What follows is
  sections 4.2 and 4.2a of the specification.

  The response body, once parsed, is a tree: a scalar, an array or an object. A path
  expression is taken in parsed form, as its segments: a property or string key, or an
  array index. Parsing the text of a path, and the error for a malformed one, are not
  part of this model.
\<close>

datatype scalar = Number real | Text string | Boolean bool | Null

datatype tree = Scalar scalar | Array "tree list" | Object "(string \<times> tree) list"

datatype segment = Key string | Index nat

text \<open>
  Modelled from the spec: the path-extraction sub-routine (4.2a), \<^verbatim>\<open>getJsonElement\<close> in
  the test. It descends the tree
  segment by segment from the root, and the value is absent (\<open>None\<close>) when the node
  does not hold the key or the index: a missing property, an index out of range, or a
  descent into something that is not a container.
\<close>

fun getJsonElement :: "tree \<Rightarrow> segment list \<Rightarrow> tree option" where
  "getJsonElement t [] = Some t"
| "getJsonElement (Object kvs) (Key k # path) =
     (case map_of kvs k of None \<Rightarrow> None | Some t \<Rightarrow> getJsonElement t path)"
| "getJsonElement (Array ts) (Index n # path) =
     (if n < length ts then getJsonElement (ts ! n) path else None)"
| "getJsonElement t (seg # path) = None"

text \<open>
  Modelled from the spec: what makes an extracted value a well-formed number. A number
  of the tree is one; a text is one when it is an unsigned decimal numeral, digits with
  an optional fraction (the oracle of the test sends \<^verbatim>\<open>"39"\<close>); nothing else is.
\<close>

definition decimalValue :: "string \<Rightarrow> real option" where
  "decimalValue s =
     (let whole = takeWhile (isRadixDigit 10) s;
          rest = dropWhile (isRadixDigit 10) s
      in if whole = [] then None
         else if rest = [] then Some (of_nat (digitsValue 10 whole))
         else if hd rest = CHR ''.'' \<and> tl rest \<noteq> [] \<and> list_all (isRadixDigit 10) (tl rest)
         then Some (of_nat (digitsValue 10 whole)
                    + of_nat (digitsValue 10 (tl rest)) / 10 ^ length (tl rest))
         else None)"

fun numericValue :: "tree \<Rightarrow> real option" where
  "numericValue (Scalar (Number r)) = Some r"
| "numericValue (Scalar (Text s)) = decimalValue s"
| "numericValue t = None"

text \<open>
  Modelled from the spec: the outcome of the one GET to the oracle endpoint and of
  parsing its body (both external collaborators), the causes of a fallback, and the
  diagnostic of each cause. A failed network call is reported by its own cause; the
  others are reported with the words \<^verbatim>\<open>not a number\<close>, as sections 7 and 8 of the
  specification have it.
\<close>

datatype response = NetworkFailed string | Unparseable string | Parsed tree

datatype cause =
  NetworkCallFailed string | BodyNotParseable | PathDoesNotResolve | ValueNotNumeric
  | ValueNotPositive

datatype severity = ErrorLevel | WarnLevel | InfoLevel | DebugLevel

fun diagnostic :: "cause \<Rightarrow> string" where
  "diagnostic (NetworkCallFailed c) = c"
| "diagnostic BodyNotParseable = ''not a number: the body is not structured data''"
| "diagnostic PathDoesNotResolve = ''not a number: the path does not resolve''"
| "diagnostic ValueNotNumeric = ''not a number: the value is not numeric''"
| "diagnostic ValueNotPositive = ''not a number: the value is not positive''"

text \<open>
  Modelled from the spec: \<^verbatim>\<open>getGasPrice\<close>, the \<open>fetch\<close> of section 4.2. With an empty
  endpoint it goes straight to the fallback source. Otherwise a value that is a
  well-formed positive number is returned multiplied by \<open>10^9\<close>; in every other case the
  cause is logged at error severity and the value of the fallback source is returned.
  The result is the value and the log; there is no result that is an exception.
\<close>

definition getGasPrice ::
  "string \<Rightarrow> response \<Rightarrow> segment list \<Rightarrow> real \<Rightarrow> real \<times> (severity \<times> cause) list" where
  "getGasPrice oracleEndpoint oracleResponse pathExpression fallbackSource =
     (if oracleEndpoint = [] then (fallbackSource, [])
      else case oracleResponse of
        NetworkFailed c \<Rightarrow> (fallbackSource, [(ErrorLevel, NetworkCallFailed c)])
      | Unparseable body \<Rightarrow> (fallbackSource, [(ErrorLevel, BodyNotParseable)])
      | Parsed t \<Rightarrow>
          (case getJsonElement t pathExpression of
             None \<Rightarrow> (fallbackSource, [(ErrorLevel, PathDoesNotResolve)])
           | Some v \<Rightarrow>
               (case numericValue v of
                  None \<Rightarrow> (fallbackSource, [(ErrorLevel, ValueNotNumeric)])
                | Some r \<Rightarrow>
                    if r > 0 then (r * 10 ^ 9, [])
                    else (fallbackSource, [(ErrorLevel, ValueNotPositive)]))))"

section \<open>Rounding to a double\<close>

lemma pow2_powr: "pow2 e = 2 powr (of_int e)"
  by (simp add: pow2_def powr_int)

lemma pow2_pos [simp]: "0 < pow2 e"
  by (simp add: pow2_powr)

lemma pow2_nonzero [simp]: "pow2 e \<noteq> 0"
  using pow2_pos [of e] by linarith

lemma pow2_add: "pow2 (a + b) = pow2 a * pow2 b"
  by (simp add: pow2_powr powr_add)

lemma pow2_mono: "a \<le> b \<Longrightarrow> pow2 a \<le> pow2 b"
  by (simp add: pow2_powr)

lemma pow2_nat: "pow2 (int n) = 2 ^ n"
  by (simp add: pow2_def)

lemma pow2_of_nat_int: "0 \<le> e \<Longrightarrow> pow2 e = of_int (2 ^ nat e)"
  by (simp add: pow2_def)

lemma exponent_bounds:
  assumes "0 < x"
  shows "pow2 \<lfloor>log 2 x\<rfloor> \<le> x" and "x < pow2 (\<lfloor>log 2 x\<rfloor> + 1)"
proof -
  have "of_int \<lfloor>log 2 x\<rfloor> \<le> log 2 x" by simp
  then have "2 powr (of_int \<lfloor>log 2 x\<rfloor>) \<le> x"
    using assms le_log_iff [of 2 x "of_int \<lfloor>log 2 x\<rfloor>"] by simp
  then show "pow2 \<lfloor>log 2 x\<rfloor> \<le> x"
    by (simp only: pow2_powr)
  have "log 2 x < of_int (\<lfloor>log 2 x\<rfloor> + 1)" by linarith
  then have "x < 2 powr (of_int (\<lfloor>log 2 x\<rfloor> + 1))"
    using assms log_less_iff [of 2 x "of_int (\<lfloor>log 2 x\<rfloor> + 1)"] by simp
  then show "x < pow2 (\<lfloor>log 2 x\<rfloor> + 1)"
    by (simp only: pow2_powr)
qed

lemma exponent_unique:
  assumes "0 < x" and "pow2 e \<le> x" and "x < pow2 (e + 1)"
  shows "\<lfloor>log 2 x\<rfloor> = e"
proof (rule floor_unique)
  have "2 powr (of_int e) \<le> x" using assms(2) by (simp only: pow2_powr)
  then show "of_int e \<le> log 2 x"
    using assms(1) le_log_iff [of 2 x "of_int e"] by simp
  have "x < 2 powr (of_int (e + 1))" using assms(3) by (simp only: pow2_powr)
  then have "log 2 x < of_int (e + 1)"
    using assms(1) log_less_iff [of 2 x "of_int (e + 1)"] by simp
  then show "log 2 x < of_int e + 1" by simp
qed

lemma roundEven_of_int [simp]: "roundEven (of_int k) = k"
  by (simp add: roundEven_def)

lemma roundEven_error: "\<bar>of_int (roundEven y) - y\<bar> \<le> 1 / 2"
proof -
  have "of_int \<lfloor>y\<rfloor> \<le> y" "y < of_int \<lfloor>y\<rfloor> + 1" by linarith+
  then show ?thesis by (auto simp: roundEven_def Let_def)
qed


lemma pow2_less: "a < b \<Longrightarrow> pow2 a < pow2 b"
  by (simp add: pow2_powr)

lemma exponent_le: "0 < x \<Longrightarrow> x < pow2 b \<Longrightarrow> \<lfloor>log 2 x\<rfloor> < b"
proof (rule ccontr)
  assume x: "0 < x" "x < pow2 b" and "\<not> \<lfloor>log 2 x\<rfloor> < b"
  then have "pow2 b \<le> pow2 \<lfloor>log 2 x\<rfloor>" by (simp add: pow2_mono)
  with exponent_bounds(1) [OF x(1)] x(2) show False by linarith
qed

lemma exponent_ge: "0 < x \<Longrightarrow> pow2 a \<le> x \<Longrightarrow> a \<le> \<lfloor>log 2 x\<rfloor>"
proof (rule ccontr)
  assume x: "0 < x" "pow2 a \<le> x" and "\<not> a \<le> \<lfloor>log 2 x\<rfloor>"
  then have "pow2 (\<lfloor>log 2 x\<rfloor> + 1) \<le> pow2 a" by (simp add: pow2_mono)
  with exponent_bounds(2) [OF x(1)] x(2) show False by linarith
qed

lemma roundEven_nonzero:
  assumes "1 \<le> \<bar>y\<bar>"
  shows "roundEven y \<noteq> 0"
proof
  assume "roundEven y = 0"
  with roundEven_error [of y] have "\<bar>y\<bar> \<le> 1 / 2" by simp
  with assms show False by simp
qed

lemma significand_nonzero:
  assumes "pow2 e \<le> \<bar>x\<bar>"
  shows "of_int (roundEven (x / pow2 (e - 52))) * pow2 (e - 52) \<noteq> (0 :: real)"
proof -
  let ?u = "pow2 (e - 52)"
  have "?u \<le> pow2 e" by (rule pow2_mono) simp
  with assms have "?u \<le> \<bar>x\<bar>" by simp
  then have "1 \<le> \<bar>x\<bar> / ?u" by (simp add: field_simps)
  moreover have "\<bar>?u\<bar> = ?u" by (rule abs_of_pos) simp
  ultimately have "1 \<le> \<bar>x / ?u\<bar>" by (simp only: abs_divide)
  then have "roundEven (x / ?u) \<noteq> 0" by (rule roundEven_nonzero)
  then show ?thesis by simp
qed

lemma fl_eval:
  assumes "pow2 e \<le> \<bar>x\<bar>" and "\<bar>x\<bar> < pow2 (e + 1)" and "- 1022 \<le> e"
    and "\<bar>of_int (roundEven (x / pow2 (e - 52))) * pow2 (e - 52)\<bar> < pow2 1024"
  shows "fl x = Num (of_int (roundEven (x / pow2 (e - 52))) * pow2 (e - 52))"
proof -
  have pos: "0 < \<bar>x\<bar>" using assms(1) pow2_pos [of e] by linarith
  then have "x \<noteq> 0" by auto
  moreover have "\<lfloor>log 2 \<bar>x\<bar>\<rfloor> = e" by (rule exponent_unique [OF pos assms(1,2)])
  moreover note significand_nonzero [OF assms(1)]
  ultimately show ?thesis using assms(3,4) by (simp add: fl_def Let_def max_def)
qed

lemma quotient_of_multiple: "0 < u \<Longrightarrow> x = k * u \<Longrightarrow> x / u = (k :: real)"
  by simp

lemma fl_exact:
  assumes "x \<noteq> 0" and "\<bar>x\<bar> < pow2 1024"
    and "x = of_int k * pow2 (max \<lfloor>log 2 \<bar>x\<bar>\<rfloor> (- 1022) - 52)"
  shows "fl x = Num x"
proof -
  let ?u = "pow2 (max \<lfloor>log 2 \<bar>x\<bar>\<rfloor> (- 1022) - 52)"
  have q: "x / ?u = of_int k"
    by (rule quotient_of_multiple [OF pow2_pos assms(3)])
  have "of_int (roundEven (x / ?u)) * ?u = of_int k * ?u"
    by (simp only: q roundEven_of_int)
  also have "\<dots> = x" by (rule assms(3) [symmetric])
  finally have "of_int (roundEven (x / ?u)) * ?u = x" .
  then show ?thesis using assms(1,2) by (simp add: fl_def Let_def)
qed

lemma fl_of_int:
  assumes "\<bar>n\<bar> \<le> 2 ^ 53"
  shows "fl (of_int n) = Num (of_int n)"
proof (cases "n = 0")
  case True
  then show ?thesis by (simp add: fl_def)
next
  case False
  let ?x = "of_int n :: real"
  let ?e = "\<lfloor>log 2 \<bar>?x\<bar>\<rfloor>"
  have pos: "0 < \<bar>?x\<bar>" using False by simp
  have one: "pow2 0 \<le> \<bar>?x\<bar>"
  proof -
    have "1 \<le> \<bar>n\<bar>" using False by simp
    then have "(1::real) \<le> of_int \<bar>n\<bar>" by linarith
    then show ?thesis by (simp add: pow2_def)
  qed
  have le53: "\<bar>?x\<bar> \<le> pow2 53"
  proof -
    have "(of_int \<bar>n\<bar> :: real) \<le> of_int (2 ^ 53)" using assms by (rule of_int_le_iff [THEN iffD2])
    then show ?thesis by (simp add: pow2_def)
  qed
  have e0: "0 \<le> ?e" by (rule exponent_ge [OF pos one])
  have "\<bar>?x\<bar> < pow2 54" using le53 pow2_less [of 53 54] by linarith
  from exponent_le [OF pos this] have e53: "?e \<le> 53" by simp
  have m: "max ?e (- 1022) = ?e" using e0 by simp
  have big: "\<bar>?x\<bar> < pow2 1024" using le53 pow2_less [of 53 1024] by linarith
  have "\<exists>k. ?x = of_int k * pow2 (?e - 52)"
  proof (cases "?e \<le> 52")
    case True
    have "pow2 (52 - ?e) * pow2 (?e - 52) = 1"
      using pow2_add [of "52 - ?e" "?e - 52"] by (simp add: pow2_def)
    moreover have "pow2 (52 - ?e) = of_int (2 ^ nat (52 - ?e))"
      using True by (simp add: pow2_of_nat_int)
    ultimately have "?x = of_int (n * 2 ^ nat (52 - ?e)) * pow2 (?e - 52)"
      by (simp add: algebra_simps)
    then show ?thesis by blast
  next
    case False
    with e53 have e: "?e = 53" by linarith
    have "pow2 53 \<le> \<bar>?x\<bar>" using exponent_bounds(1) [OF pos] e by simp
    with le53 have "\<bar>?x\<bar> = pow2 53" by simp
    then have "\<bar>?x\<bar> = of_int (2 ^ 53)" by (simp add: pow2_def)
    then have "\<bar>n\<bar> = 2 ^ 53" by (metis of_int_abs of_int_eq_iff)
    then have "n = 2 ^ 53 \<or> n = - (2 ^ 53)" by linarith
    then have "n = 2 * (n div 2)" by auto
    then have "?x = of_int (n div 2) * 2" by (metis mult.commute of_int_mult of_int_numeral)
    then have "?x = of_int (n div 2) * pow2 (?e - 52)" using e by (simp add: pow2_def)
    then show ?thesis by blast
  qed
  then obtain k where "?x = of_int k * pow2 (max ?e (- 1022) - 52)" using m by auto
  from fl_exact [OF _ big this] False show ?thesis by simp
qed

lemma fl_not_NaN: "fl x \<noteq> NaN"
  by (auto simp: fl_def Let_def infinity_of_def zero_of_def)

lemma fl_ge_one:
  assumes "1 \<le> x"
  shows "fl x = PosInfinity \<or> (\<exists>r. 1 \<le> r \<and> fl x = Num r)"
proof -
  let ?e = "\<lfloor>log 2 \<bar>x\<bar>\<rfloor>"
  let ?u = "pow2 (max ?e (- 1022) - 52)"
  let ?r = "of_int (roundEven (x / ?u)) * ?u"
  have pos: "0 < \<bar>x\<bar>" and x: "\<bar>x\<bar> = x" "x \<noteq> 0" "0 < x" using assms by auto
  have "pow2 0 \<le> \<bar>x\<bar>" using assms by (simp add: pow2_def)
  from exponent_ge [OF pos this] have e0: "0 \<le> ?e" .
  then have m: "max ?e (- 1022) = ?e" by simp
  have "pow2 52 * ?u = pow2 ?e" using pow2_add [of 52 "?e - 52"] m by simp
  moreover have "pow2 ?e \<le> x" using exponent_bounds(1) [OF pos] x by simp
  ultimately have "pow2 52 * ?u \<le> x" by simp
  then have "pow2 52 \<le> x / ?u" by (simp add: field_simps)
  then have "of_int (2 ^ 52) \<le> x / ?u" by (simp add: pow2_def)
  then have "(2 ^ 52 :: int) \<le> \<lfloor>x / ?u\<rfloor>" by (simp only: le_floor_iff)
  moreover have "\<lfloor>x / ?u\<rfloor> \<le> roundEven (x / ?u)" by (simp add: roundEven_def Let_def)
  ultimately have "(2 ^ 52 :: int) \<le> roundEven (x / ?u)" by linarith
  then have "(of_int (2 ^ 52) :: real) \<le> of_int (roundEven (x / ?u))" by (simp only: of_int_le_iff)
  then have "of_int (2 ^ 52) * ?u \<le> ?r" by (simp add: mult_right_mono)
  moreover have "of_int (2 ^ 52) * ?u = pow2 ?e"
    using pow2_add [of 52 "?e - 52"] m by (simp add: pow2_def)
  moreover have "1 \<le> pow2 ?e" using pow2_mono [OF e0] by (simp add: pow2_def)
  ultimately have r: "1 \<le> ?r" by linarith
  show ?thesis
  proof (cases "pow2 1024 \<le> \<bar>?r\<bar>")
    case True
    then show ?thesis using x by (simp add: fl_def Let_def infinity_of_def)
  next
    case False
    moreover have "?r \<noteq> 0" using r by linarith
    ultimately have "fl x = Num ?r" using x by (simp add: fl_def Let_def)
    with r show ?thesis by blast
  qed
qed


lemma round_fl_quotient:
  fixes a c :: int
  assumes "1 \<le> a" and "a < 2 ^ 52" and "1 \<le> c" and "c \<le> 2 ^ 53"
  shows "\<exists>r. fl (of_int a / of_int c) = Num r \<and> 0 < r
           \<and> \<lfloor>r + 1 / 2\<rfloor> = \<lfloor>(of_int a / of_int c :: real) + 1 / 2\<rfloor>"
proof -
  define A C :: real where "A = of_int a" and "C = of_int c"
  define q where "q = A / C"
  define e where "e = \<lfloor>log 2 q\<rfloor>"
  define u where "u = pow2 (e - 52)"
  define R where "R = roundEven (q / u)"
  define r where "r = of_int R * u"
  define k where "k = \<lfloor>q + 1 / 2\<rfloor>"
  define K :: real where "K = of_int k"
  have A: "1 \<le> A" "A < 2 ^ 52" using assms(1,2) by (simp_all add: A_def)
  have C: "1 \<le> C" "C \<le> 2 ^ 53" using assms(3,4) by (simp_all add: C_def)
  have cpos: "0 < C" using C(1) by simp
  have qC: "q * C = A" using cpos by (simp add: q_def)
  have qpos: "0 < q" using A cpos by (simp add: q_def)
  then have absq: "\<bar>q\<bar> = q" by (rule abs_of_pos)
  have "q * 1 \<le> q * C" using qpos C(1) by (simp only: mult_le_cancel_left_pos)
  then have "q \<le> A" using qC by simp
  then have q_lt: "q < pow2 52" using A by (simp add: pow2_def)
  have "C * (1 / 2 ^ 53) \<le> 1" using C(2) by simp
  also have "\<dots> \<le> C * q" using A qC by (simp add: mult.commute)
  finally have "1 / 2 ^ 53 \<le> q" using cpos by (simp only: mult_le_cancel_left_pos)
  then have q_ge: "pow2 (- 53) \<le> q" by (simp add: pow2_def)
  have e_hi: "e \<le> 51" using exponent_le [OF qpos q_lt] by (simp add: e_def)
  have e_lo: "- 53 \<le> e" using exponent_ge [OF qpos q_ge] by (simp add: e_def)
  have b1: "pow2 e \<le> \<bar>q\<bar>" and b2: "\<bar>q\<bar> < pow2 (e + 1)"
    using exponent_bounds [OF qpos] by (simp_all only: absq e_def)
  have upos: "0 < u" by (simp add: u_def)
  have "u * pow2 52 = pow2 e" using pow2_add [of "e - 52" 52] by (simp add: u_def)
  then have u_le: "u * 2 ^ 52 \<le> q" using b1 absq by (simp add: pow2_def)
  have "\<bar>of_int R - q / u\<bar> \<le> 1 / 2" unfolding R_def by (rule roundEven_error)
  then have "\<bar>of_int R - q / u\<bar> * u \<le> 1 / 2 * u"
    using upos by (simp only: mult_le_cancel_right_pos)
  moreover have "\<bar>of_int R - q / u\<bar> * u = \<bar>r - q\<bar>"
  proof -
    have "\<bar>of_int R - q / u\<bar> * u = \<bar>of_int R - q / u\<bar> * \<bar>u\<bar>"
      using upos by simp
    also have "\<dots> = \<bar>(of_int R - q / u) * u\<bar>" by (simp only: abs_mult)
    also have "(of_int R - q / u) * u = r - q"
      using upos by (simp add: left_diff_distrib r_def)
    finally show ?thesis .
  qed
  ultimately have err_u: "\<bar>r - q\<bar> \<le> u / 2" by simp
  define h where "h = 1 / (2 * C)"
  have hC: "h * C = 1 / 2" using cpos by (simp add: h_def)
  have u53: "u / 2 \<le> q / 2 ^ 53" using u_le by simp
  have "q / 2 ^ 53 < h"
  proof -
    have "A * 2 < 2 ^ 53" using A(2) by simp
    then have "q * C * 2 < 2 ^ 53" by (simp only: qC)
    then have "q / 2 ^ 53 * C < h * C" by (simp add: hC)
    then show ?thesis using cpos by (simp only: mult_less_cancel_right_pos)
  qed
  with u53 have "u / 2 < h" by linarith
  with err_u have err: "\<bar>r - q\<bar> < h" by linarith
  have "h * 1 \<le> h * C" using C(1) cpos by (simp add: h_def)
  then have half: "h \<le> 1 / 2" by (simp add: hC)
  have "\<bar>r\<bar> < pow2 52 + 1" using err half q_lt qpos by linarith
  also have "\<dots> \<le> pow2 1024" using pow2_less [of 53 1024] by (simp add: pow2_def)
  finally have small: "\<bar>r\<bar> < pow2 1024" .
  have "fl q = Num (of_int (roundEven (q / pow2 (e - 52))) * pow2 (e - 52))"
    by (rule fl_eval [OF b1 b2]) (use e_lo small in \<open>simp_all add: r_def R_def u_def\<close>)
  then have flq: "fl q = Num r" by (simp only: r_def R_def u_def)
  have k1: "K \<le> q + 1 / 2" and k2: "q + 1 / 2 < K + 1"
    unfolding K_def k_def by linarith+
  have KC1: "(2 * K - 1) * C = 2 * (K * C) - C" by (simp add: left_diff_distrib)
  have KC2: "(2 * K + 1) * C = 2 * (K * C) + C" by (simp add: distrib_right)
  have i1: "(2 * k - 1) * c \<le> 2 * a"
  proof -
    have "K * C \<le> (q + 1 / 2) * C" using k1 cpos by (simp only: mult_le_cancel_right_pos)
    also have "\<dots> = A + C / 2" by (simp add: distrib_right qC)
    finally have "(2 * K - 1) * C \<le> 2 * A" unfolding KC1 by linarith
    then have "of_int ((2 * k - 1) * c) \<le> (of_int (2 * a) :: real)"
      by (simp add: K_def A_def C_def)
    then show ?thesis by (simp only: of_int_le_iff)
  qed
  have i2: "2 * a + 1 \<le> (2 * k + 1) * c"
  proof -
    have "(q + 1 / 2) * C < (K + 1) * C" using k2 cpos by (simp only: mult_less_cancel_right_pos)
    moreover have "(q + 1 / 2) * C = A + C / 2" by (simp add: distrib_right qC)
    moreover have "(K + 1) * C = K * C + C" by (simp add: distrib_right)
    ultimately have "2 * A < (2 * K + 1) * C" unfolding KC2 by linarith
    then have "(of_int (2 * a) :: real) < of_int ((2 * k + 1) * c)"
      by (simp add: K_def A_def C_def)
    then have "2 * a < (2 * k + 1) * c" by (simp only: of_int_less_iff)
    then show ?thesis by simp
  qed
  have upper: "r + 1 / 2 < K + 1"
  proof -
    have "(of_int (2 * a + 1) :: real) \<le> of_int ((2 * k + 1) * c)"
      using i2 by (simp only: of_int_le_iff)
    then have "2 * A + 1 \<le> (2 * K + 1) * C" by (simp add: K_def A_def C_def)
    moreover have "(q + h) * C = A + 1 / 2" by (simp add: distrib_right qC hC)
    moreover have "(K + 1 / 2) * C = K * C + C / 2" by (simp add: distrib_right)
    ultimately have "(q + h) * C \<le> (K + 1 / 2) * C" unfolding KC2 by linarith
    then have "q + h \<le> K + 1 / 2" using cpos by (simp only: mult_le_cancel_right_pos)
    with err show ?thesis by linarith
  qed
  have lower: "K \<le> r + 1 / 2"
  proof (cases "(2 * k - 1) * c = 2 * a")
    case True
    then have "(of_int ((2 * k - 1) * c) :: real) = of_int (2 * a)" by simp
    then have "(2 * K - 1) * C = 2 * A" by (simp add: K_def A_def C_def)
    then have "(2 * K - 1) * C = 2 * q * C" using qC by simp
    then have "2 * K - 1 = 2 * q" using cpos by simp
    then have q: "q = (2 * K - 1) * (1 / 2)" by simp
    have "pow2 (51 - e) * u = pow2 (- 1)" using pow2_add [of "51 - e" "e - 52"] by (simp add: u_def)
    then have inv2: "pow2 (51 - e) * u = 1 / 2" by (simp add: pow2_def)
    have p: "pow2 (51 - e) = of_int (2 ^ nat (51 - e))"
      using e_hi by (simp add: pow2_of_nat_int)
    have "of_int ((2 * k - 1) * 2 ^ nat (51 - e)) * u = (2 * K - 1) * (pow2 (51 - e) * u)"
      by (simp add: p K_def)
    also have "\<dots> = q" by (simp only: inv2 q)
    finally have "q = of_int ((2 * k - 1) * 2 ^ nat (51 - e)) * u" by simp
    from quotient_of_multiple [OF upos this]
    have "q / u = of_int ((2 * k - 1) * 2 ^ nat (51 - e))" .
    then have "of_int R = q / u" unfolding R_def by (simp only: roundEven_of_int)
    then have "r = q" using upos by (simp add: r_def)
    with k1 show ?thesis by simp
  next
    case False
    with i1 have "(2 * k - 1) * c + 1 \<le> 2 * a" by simp
    then have "(of_int ((2 * k - 1) * c + 1) :: real) \<le> of_int (2 * a)"
      by (simp only: of_int_le_iff)
    then have "(2 * K - 1) * C + 1 \<le> 2 * A" by (simp add: K_def A_def C_def)
    moreover have "(K - 1 / 2 + h) * C = K * C - C / 2 + 1 / 2"
      by (simp add: distrib_right left_diff_distrib hC)
    ultimately have "(K - 1 / 2 + h) * C \<le> q * C" unfolding KC1 qC by linarith
    then have "K - 1 / 2 + h \<le> q" using cpos by (simp only: mult_le_cancel_right_pos)
    with err show ?thesis by linarith
  qed
  have "2 * (h * C) \<le> A" using A(1) by (simp add: hC)
  then have "2 * h * C \<le> q * C" by (simp only: qC mult.assoc)
  then have "2 * h \<le> q" using cpos by (simp only: mult_le_cancel_right_pos)
  moreover have "0 < h" using cpos by (simp add: h_def)
  ultimately have rpos: "0 < r" using err by linarith
  have "\<lfloor>r + 1 / 2\<rfloor> = k" using lower upper unfolding K_def by (rule floor_unique)
  with flq rpos show ?thesis unfolding k_def q_def A_def C_def by blast
qed

section \<open>Properties of the fee negotiation\<close>

lemma fl_numeral: "(numeral k :: int) \<le> 2 ^ 53 \<Longrightarrow> fl (numeral k) = Num (numeral k)"
  using fl_of_int [of "numeral k"] by simp

lemma num_minus_of_int:
  "\<bar>m - c\<bar> \<le> 2 ^ 53 \<Longrightarrow> num_minus (Num (of_int m)) (Num (of_int c)) = Num (of_int (m - c))"
  using fl_of_int [of "m - c"] by simp

lemma num_times_of_int:
  "\<bar>d * 100\<bar> \<le> 2 ^ 53 \<Longrightarrow> num_times (Num (of_int d)) (Num 100) = Num (of_int (d * 100))"
  using fl_of_int [of "d * 100"] by (simp add: num_times_def isZero_def zero_of_def)

lemma roundEven_up:
  assumes "of_int f + 1 / 2 < y" and "y < of_int f + 1"
  shows "roundEven y = f + 1"
proof -
  have "\<lfloor>y\<rfloor> = f" using assms by (intro floor_unique) simp_all
  with assms show ?thesis by (simp add: roundEven_def Let_def)
qed

text \<open>
  C1, as amended. For integer fee values with \<open>1 \<le> clientInput \<le> 2^53\<close>,
  \<open>\<bar>pingResponseMinimum\<bar> \<le> 2^53\<close> and \<open>(pingResponseMinimum - clientInput) * 100 < 2^52\<close>:
  when the client value is at least the server minimum, the resolved value is the
  client value and the deviation is 0; otherwise the resolved value is the server
  minimum and the deviation is \<open>(minimum - client) * 100 / client\<close>, a real-valued
  quotient, rounded to the nearest integer with ties going up. In both cases the
  resolved value is the maximum of the two inputs. Under these bounds the difference
  and the product are computed exactly, and the rounding of the quotient to a double
  does not move it across a half-integer.
\<close>

theorem adjustGasCostParameterUp_resolved:
  fixes clientInput pingResponseMinimum :: int
  assumes "1 \<le> clientInput" and "clientInput \<le> 2 ^ 53" and "\<bar>pingResponseMinimum\<bar> \<le> 2 ^ 53"
    and "(pingResponseMinimum - clientInput) * 100 < 2 ^ 52"
  shows "(clientInput \<ge> pingResponseMinimum \<longrightarrow>
            adjustGasCostParameterUp (Num (of_int clientInput)) (Num (of_int pingResponseMinimum))
              = \<lparr>newValue = Num (of_int clientInput), deltaPercent = Num 0\<rparr>)
       \<and> (clientInput < pingResponseMinimum \<longrightarrow>
            adjustGasCostParameterUp (Num (of_int clientInput)) (Num (of_int pingResponseMinimum))
              = \<lparr>newValue = Num (of_int pingResponseMinimum),
                 deltaPercent = Num (of_int (round
                   (of_int ((pingResponseMinimum - clientInput) * 100) / of_int clientInput :: real)))\<rparr>)
       \<and> newValue (adjustGasCostParameterUp (Num (of_int clientInput)) (Num (of_int pingResponseMinimum)))
            = Num (of_int (max clientInput pingResponseMinimum))"
proof (cases "clientInput \<ge> pingResponseMinimum")
  case True
  then show ?thesis by (simp add: adjustGasCostParameterUp_def max_def)
next
  case False
  let ?d = "pingResponseMinimum - clientInput"
  let ?a = "?d * 100"
  have d: "1 \<le> ?d" using False by simp
  then have a: "1 \<le> ?a" "?a < 2 ^ 52" using assms(4) by simp_all
  have minus: "num_minus (Num (of_int pingResponseMinimum)) (Num (of_int clientInput)) = Num (of_int ?d)"
    using d a by (intro num_minus_of_int) simp
  have times: "num_times (Num (of_int ?d)) (Num 100) = Num (of_int ?a)"
    using a by (intro num_times_of_int) simp
  obtain r where r: "fl (of_int ?a / of_int clientInput) = Num r" "0 < r"
      "\<lfloor>r + 1 / 2\<rfloor> = \<lfloor>(of_int ?a / of_int clientInput :: real) + 1 / 2\<rfloor>"
    using round_fl_quotient [OF a assms(1,2)] by blast
  have "of_int ?a \<noteq> (0 :: real)" using a(1) by (simp only: of_int_eq_0_iff)
  moreover have "of_int clientInput \<noteq> (0 :: real)" using assms(1) by simp
  ultimately have divide: "num_divide (Num (of_int ?a)) (Num (of_int clientInput)) = Num r"
    using r(1) by (simp add: num_divide_def isZero_def)
  have "Math_round (Num r) = Num (of_int \<lfloor>r + 1 / 2\<rfloor>)" using r(2) by (simp add: Let_def)
  then have round: "Math_round (Num r)
      = Num (of_int (round (of_int ?a / of_int clientInput :: real)))"
    by (simp only: r(3) round_def)
  have "\<not> num_ge (Num (of_int clientInput)) (Num (of_int pingResponseMinimum))"
    using False by simp
  then have "adjustGasCostParameterUp (Num (of_int clientInput)) (Num (of_int pingResponseMinimum))
      = \<lparr>newValue = Num (of_int pingResponseMinimum),
         deltaPercent = Math_round (num_divide
           (num_times (num_minus (Num (of_int pingResponseMinimum)) (Num (of_int clientInput)))
                      (Num 100))
           (Num (of_int clientInput)))\<rparr>"
    by (simp only: adjustGasCostParameterUp_def Let_def if_False)
  then have "adjustGasCostParameterUp (Num (of_int clientInput)) (Num (of_int pingResponseMinimum))
      = \<lparr>newValue = Num (of_int pingResponseMinimum),
         deltaPercent = Num (of_int (round (of_int ?a / of_int clientInput :: real)))\<rparr>"
    by (simp only: minus times divide round)
  with False show ?thesis by (simp add: max_def)
qed

theorem adjustGasCostParameterUp_resolved_witness:
  "(1::int) \<le> 100
   \<and> adjustGasCostParameterUp (Num 100) (Num 100) = \<lparr>newValue = Num 100, deltaPercent = Num 0\<rparr>
   \<and> adjustGasCostParameterUp (Num 100) (Num 150) = \<lparr>newValue = Num 150, deltaPercent = Num 50\<rparr>"
  using adjustGasCostParameterUp_resolved [of 100 100] adjustGasCostParameterUp_resolved [of 100 150]
  by simp

text \<open>
  As stated, for all integer fee values with \<open>clientInput \<ge> 1\<close>, the claim fails:
  the code rounds the quotient to a double before \<^verbatim>\<open>Math.round\<close> sees it. For the
  client value 3 and the minimum 70000000000003 the quotient is
  \<open>2333333333333333.33...\<close>, the nearest double is \<open>2333333333333333.5\<close>, and the
  deviation returned is 2333333333333334 where the real-valued quotient rounds to
  2333333333333333.
\<close>

theorem adjustGasCostParameterUp_rounding_counterexample:
  "adjustGasCostParameterUp (Num 3) (Num 70000000000003)
     = \<lparr>newValue = Num 70000000000003, deltaPercent = Num 2333333333333334\<rparr>
   \<and> round ((70000000000003 - 3) * 100 / 3 :: real) = (2333333333333333 :: int)"
proof -
  let ?x = "7000000000000000 / 3 :: real"
  have re: "roundEven (?x / pow2 (51 - 52)) = 4666666666666666 + 1"
    by (rule roundEven_up) (simp_all add: pow2_def)
  have small: "\<bar>of_int (roundEven (?x / pow2 (51 - 52))) * pow2 (51 - 52)\<bar> < pow2 1024"
    by (simp only: re) (simp add: pow2_def)
  have "fl ?x = Num (of_int (roundEven (?x / pow2 (51 - 52))) * pow2 (51 - 52))"
    by (rule fl_eval [OF _ _ _ small]) (simp_all add: pow2_def)
  then have "fl ?x = Num (of_int (4666666666666666 + 1) * pow2 (51 - 52))" by (simp only: re)
  then have q: "fl ?x = Num (4666666666666667 / 2)" by (simp add: pow2_def)
  have "adjustGasCostParameterUp (Num 3) (Num 70000000000003)
     = \<lparr>newValue = Num 70000000000003, deltaPercent = Num 2333333333333334\<rparr>"
    by (simp add: adjustGasCostParameterUp_def Let_def num_times_def num_divide_def isZero_def
        fl_numeral q)
  moreover have "round ((70000000000003 - 3) * 100 / 3 :: real) = (2333333333333333 :: int)"
    by (simp add: round_def)
  ultimately show ?thesis by simp
qed

lemma isInteger_cases:
  assumes "isInteger x"
  obtains "x = NegZero" | k where "x = Num (of_int k)"
  using assms by (cases x) auto

lemma of_int_ge_one: "(0 :: real) < of_int k \<Longrightarrow> (1 :: real) \<le> of_int k"
proof -
  assume "(0 :: real) < of_int k"
  then have "0 < k" by simp
  then have "1 \<le> k" by simp
  then show ?thesis by (simp only: of_int_1_le_iff)
qed

lemma num_minus_raise:
  assumes "isInteger c" and "isInteger m" and "\<not> num_ge c m"
  shows "num_minus m c = PosInfinity \<or> (\<exists>r. 1 \<le> r \<and> num_minus m c = Num r)"
proof (rule isInteger_cases [OF assms(1)]; rule isInteger_cases [OF assms(2)])
  assume "c = NegZero" "m = NegZero"
  with assms(3) show ?thesis by simp
next
  fix k assume c: "c = NegZero" and m: "m = Num (of_int k)"
  with assms(3) have "(0 :: real) < of_int k" by simp
  then have "(1 :: real) \<le> of_int k - 0" using of_int_ge_one by simp
  from fl_ge_one [OF this] show ?thesis using c m by simp
next
  fix k assume c: "c = Num (of_int k)" and m: "m = NegZero"
  with assms(3) have "(0 :: real) < of_int (- k)" by simp
  then have "(1 :: real) \<le> of_int (- k)" by (rule of_int_ge_one)
  then have k: "(1 :: real) \<le> - of_int k" by simp
  then have "of_int k \<noteq> (0 :: real)" by linarith
  with fl_ge_one [OF k] show ?thesis using c m by simp
next
  fix k j assume c: "c = Num (of_int k)" and m: "m = Num (of_int j)"
  with assms(3) have "(0 :: real) < of_int (j - k)" by simp
  then have "(1 :: real) \<le> of_int (j - k)" by (rule of_int_ge_one)
  then have "(1 :: real) \<le> of_int j - of_int k" by simp
  from fl_ge_one [OF this] show ?thesis using c m by simp
qed

lemma num_times_raise:
  assumes "d = PosInfinity \<or> (\<exists>r. 1 \<le> r \<and> d = Num r)"
  shows "num_times d (Num 100) = PosInfinity \<or> (\<exists>r. 1 \<le> r \<and> num_times d (Num 100) = Num r)"
proof -
  from assms consider "d = PosInfinity" | r where "1 \<le> r" "d = Num r" by blast
  then show ?thesis
  proof cases
    case 1
    then show ?thesis by (simp add: num_times_def isZero_def infinity_of_def)
  next
    case 2
    then have "1 \<le> r * 100" by simp
    from fl_ge_one [OF this] show ?thesis using 2 by (simp add: num_times_def isZero_def)
  qed
qed

lemma infinity_of_not_NaN [simp]: "infinity_of b \<noteq> NaN"
  by (simp add: infinity_of_def)

lemma zero_of_not_NaN [simp]: "zero_of b \<noteq> NaN"
  by (simp add: zero_of_def)

lemma num_divide_raise:
  assumes "t = PosInfinity \<or> (\<exists>r. 1 \<le> r \<and> t = Num r)" and "isFinite c"
  shows "num_divide t c \<noteq> NaN"
proof -
  from assms(2) have c: "c \<noteq> NaN" by (cases c) simp_all
  from assms(1) consider "t = PosInfinity" | r where "1 \<le> r" "t = Num r" by blast
  then show ?thesis
  proof cases
    case 1
    with assms(2) c show ?thesis by (simp add: num_divide_def)
  next
    case 2
    then have "\<not> isZero t" by (simp add: isZero_def)
    with 2 assms(2) c show ?thesis by (simp add: num_divide_def fl_not_NaN)
  qed
qed

lemma Math_round_not_NaN: "x \<noteq> NaN \<Longrightarrow> Math_round x \<noteq> NaN"
  by (cases x) (simp_all add: Let_def)

lemma isInteger_isFinite: "isInteger x \<Longrightarrow> isFinite x"
  by (cases x) simp_all

lemma deltaPercent_not_NaN:
  assumes "isInteger c" and "isInteger m"
  shows "deltaPercent (adjustGasCostParameterUp c m) \<noteq> NaN"
proof (cases "num_ge c m")
  case True
  then show ?thesis by (simp add: adjustGasCostParameterUp_def)
next
  case False
  have "num_divide (num_times (num_minus m c) (Num 100)) c \<noteq> NaN"
    by (intro num_divide_raise num_times_raise num_minus_raise assms False
          isInteger_isFinite)
  then show ?thesis
    using False by (simp add: adjustGasCostParameterUp_def Let_def Math_round_not_NaN)
qed

lemma num_ge_refl: "x \<noteq> NaN \<Longrightarrow> num_ge x x"
  by (cases x) simp_all

lemma num_ge_total: "a \<noteq> NaN \<Longrightarrow> b \<noteq> NaN \<Longrightarrow> \<not> num_ge a b \<Longrightarrow> num_ge b a"
  by (cases a; cases b) simp_all

lemma isZero_cases: "isZero x = (x = Num 0 \<or> x = NegZero)"
  by (cases x) (simp_all add: isZero_def)

lemma Math_max_larger:
  assumes "a \<noteq> NaN" and "b \<noteq> NaN"
  shows "(Math_max a b = a \<or> Math_max a b = b)
       \<and> num_ge (Math_max a b) a \<and> num_ge (Math_max a b) b"
proof (cases "isZero a \<and> isZero b")
  case True
  then have "(a = Num 0 \<or> a = NegZero) \<and> (b = Num 0 \<or> b = NegZero)"
    by (simp only: isZero_cases)
  then show ?thesis
    by (elim conjE disjE) (simp_all add: Math_max_def isZero_def zero_of_def)
next
  case False
  show ?thesis
  proof (cases "num_ge a b")
    case True
    with False assms have "Math_max a b = a" by (auto simp: Math_max_def)
    with True num_ge_refl [OF assms(1)] show ?thesis by simp
  next
    case ab: False
    with False assms have "Math_max a b = b" by (auto simp: Math_max_def)
    with num_ge_total [OF assms ab] num_ge_refl [OF assms(2)] show ?thesis by simp
  qed
qed

lemma newValue_larger:
  assumes "c \<noteq> NaN" and "m \<noteq> NaN"
  shows "(newValue (adjustGasCostParameterUp c m) = c \<or> newValue (adjustGasCostParameterUp c m) = m)
       \<and> num_ge (newValue (adjustGasCostParameterUp c m)) c
       \<and> num_ge (newValue (adjustGasCostParameterUp c m)) m"
proof (cases "num_ge c m")
  case True
  then have "newValue (adjustGasCostParameterUp c m) = c"
    by (simp add: adjustGasCostParameterUp_def)
  with True num_ge_refl [OF assms(1)] show ?thesis by simp
next
  case False
  then have "newValue (adjustGasCostParameterUp c m) = m"
    by (simp add: adjustGasCostParameterUp_def Let_def)
  with num_ge_total [OF assms False] num_ge_refl [OF assms(2)] show ?thesis by simp
qed

lemma isInteger_not_NaN: "isInteger x \<Longrightarrow> x \<noteq> NaN"
  by (cases x) simp_all


lemma fl_of_int_isInteger:
  assumes "isFinite (fl (of_int k))"
  shows "isInteger (fl (of_int k))"
proof (cases "\<bar>k\<bar> \<le> 2 ^ 53")
  case True
  then show ?thesis by (simp add: fl_of_int)
next
  case False
  let ?x = "of_int k :: real"
  let ?e = "\<lfloor>log 2 \<bar>?x\<bar>\<rfloor>"
  let ?u = "pow2 (max ?e (- 1022) - 52)"
  let ?R = "roundEven (?x / ?u)"
  from False have big: "2 ^ 53 \<le> \<bar>k\<bar>" by simp
  then have "(of_int (2 ^ 53) :: real) \<le> of_int \<bar>k\<bar>" by (simp only: of_int_le_iff)
  then have x53: "pow2 53 \<le> \<bar>?x\<bar>" by (simp add: pow2_def)
  then have pos: "0 < \<bar>?x\<bar>" using pow2_pos [of 53] by linarith
  have e: "53 \<le> ?e" by (rule exponent_ge [OF pos x53])
  then have "max ?e (- 1022) - 52 = ?e - 52" by simp
  moreover have "pow2 (?e - 52) = of_int (2 ^ nat (?e - 52))"
    using e by (simp add: pow2_of_nat_int)
  ultimately have u: "?u = of_int (2 ^ nat (?e - 52))" by simp
  have r: "of_int ?R * ?u = of_int (?R * 2 ^ nat (?e - 52))"
    by (simp only: u of_int_mult)
  have "?x \<noteq> 0" using pos by simp
  then have "fl ?x = (if pow2 1024 \<le> \<bar>of_int ?R * ?u\<bar> then infinity_of (?x < 0)
         else if of_int ?R * ?u = 0 then zero_of (?x < 0) else Num (of_int ?R * ?u))"
    by (simp add: fl_def Let_def)
  then have "fl ?x = infinity_of (?x < 0) \<or> fl ?x = zero_of (?x < 0)
       \<or> fl ?x = Num (of_int (?R * 2 ^ nat (?e - 52)))"
    by (simp only: r split: if_splits) auto
  moreover have "isInteger (zero_of (?x < 0))" by (simp add: zero_of_def)
  moreover have "isInteger (Num (of_int (?R * 2 ^ nat (?e - 52))))"
    by (simp only: isInteger.simps floor_of_int)
  moreover have "\<not> isFinite (infinity_of (?x < 0))" by (simp add: infinity_of_def)
  ultimately show ?thesis using assms by auto
qed

lemma parseInt_form:
  "parseInt s = NaN \<or> (\<exists>b. parseInt s = zero_of b) \<or> (\<exists>k. parseInt s = fl (of_int k))"
  by (auto simp only: parseInt_def Let_def split: if_split)

lemma parseInt_isInteger:
  assumes "isFinite (parseInt s)"
  shows "isInteger (parseInt s)"
proof -
  from parseInt_form [of s] consider "parseInt s = NaN" | b where "parseInt s = zero_of b"
    | k where "parseInt s = fl (of_int k)" by blast
  then show ?thesis
  proof cases
    case 1
    with assms show ?thesis by simp
  next
    case 2
    then show ?thesis by (simp add: zero_of_def)
  next
    case 3
    with assms fl_of_int_isInteger [of k] show ?thesis by simp
  qed
qed


lemmas parseInt_eval =
  parseInt_def isWhiteSpace_def isRadixDigit_def digitValue_def digitsValue_def Let_def
  zero_of_def fl_numeral

lemmas fee_eval =
  adjustGasCostParameterUp_def num_times_def num_divide_def isZero_def infinity_of_def
  Math_max_def Let_def fl_numeral

text \<open>
  C2. For the two fee parameters, whenever the client values and the server minimums
  are fee strings that \<^verbatim>\<open>parseInt\<close> reads as finite numbers (zero and negative values
  included): neither per-parameter deviation is NaN, the result's \<open>maxDeltaPercent\<close>
  is one of the two deviations and is at least each of them (the larger one, not
  their sum or average), \<open>updatedGasFees\<close> carries \<^verbatim>\<open>toHex\<close> of each parameter's
  resolved value, which is the larger of its client value and its minimum, and
  \<open>relayInfo\<close> is handed back as it came. The deviations are those of
  \<^verbatim>\<open>adjustGasCostParameterUp\<close> on the parsed values; with a client value of zero below
  the minimum the deviation is infinite.
\<close>

theorem adjustRelayRequestForPingResponse_max:
  assumes "isFinite (parseInt (maxPriorityFeePerGas feesIn))"
    and "isFinite (parseInt (minMaxPriorityFeePerGas (pingResponse info)))"
    and "isFinite (parseInt (maxFeePerGas feesIn))"
    and "isFinite (parseInt (minMaxFeePerGas (pingResponse info)))"
    and "priority = adjustGasCostParameterUp (parseInt (maxPriorityFeePerGas feesIn))
                      (parseInt (minMaxPriorityFeePerGas (pingResponse info)))"
    and "fee = adjustGasCostParameterUp (parseInt (maxFeePerGas feesIn))
                      (parseInt (minMaxFeePerGas (pingResponse info)))"
    and "r = adjustRelayRequestForPingResponse toHex feesIn info"
  shows "deltaPercent fee \<noteq> NaN \<and> deltaPercent priority \<noteq> NaN
       \<and> (maxDeltaPercent r = deltaPercent fee \<or> maxDeltaPercent r = deltaPercent priority)
       \<and> num_ge (maxDeltaPercent r) (deltaPercent fee)
       \<and> num_ge (maxDeltaPercent r) (deltaPercent priority)
       \<and> updatedGasFees r = \<lparr>maxFeePerGas = toHex (newValue fee),
                              maxPriorityFeePerGas = toHex (newValue priority)\<rparr>
       \<and> (newValue fee = parseInt (maxFeePerGas feesIn)
            \<or> newValue fee = parseInt (minMaxFeePerGas (pingResponse info)))
       \<and> num_ge (newValue fee) (parseInt (maxFeePerGas feesIn))
       \<and> num_ge (newValue fee) (parseInt (minMaxFeePerGas (pingResponse info)))
       \<and> (newValue priority = parseInt (maxPriorityFeePerGas feesIn)
            \<or> newValue priority = parseInt (minMaxPriorityFeePerGas (pingResponse info)))
       \<and> num_ge (newValue priority) (parseInt (maxPriorityFeePerGas feesIn))
       \<and> num_ge (newValue priority) (parseInt (minMaxPriorityFeePerGas (pingResponse info)))
       \<and> relayInfo r = info"
proof -
  note int = assms(1-4) [THEN parseInt_isInteger]
  have dF: "deltaPercent fee \<noteq> NaN"
    unfolding assms(6) by (rule deltaPercent_not_NaN [OF int(3,4)])
  have dP: "deltaPercent priority \<noteq> NaN"
    unfolding assms(5) by (rule deltaPercent_not_NaN [OF int(1,2)])
  have m: "maxDeltaPercent r = Math_max (deltaPercent fee) (deltaPercent priority)"
    by (simp add: assms(5-7) adjustRelayRequestForPingResponse_def Let_def)
  have u: "updatedGasFees r = \<lparr>maxFeePerGas = toHex (newValue fee),
                              maxPriorityFeePerGas = toHex (newValue priority)\<rparr>"
    by (simp add: assms(5-7) adjustRelayRequestForPingResponse_def Let_def)
  have i: "relayInfo r = info"
    by (simp add: assms(7) adjustRelayRequestForPingResponse_def Let_def)
  note nF = newValue_larger [OF int(3,4) [THEN isInteger_not_NaN], folded assms(6)]
  note nP = newValue_larger [OF int(1,2) [THEN isInteger_not_NaN], folded assms(5)]
  show ?thesis
    using dF dP Math_max_larger [OF dF dP, folded m] u nF nP i by (simp only: simp_thms)
qed

theorem adjustRelayRequestForPingResponse_max_witness:
  "adjustGasCostParameterUp (parseInt ''100'') (parseInt ''110'')
     = \<lparr>newValue = Num 110, deltaPercent = Num 10\<rparr>
   \<and> adjustGasCostParameterUp (parseInt ''100'') (parseInt ''0x96'')
     = \<lparr>newValue = Num 150, deltaPercent = Num 50\<rparr>
   \<and> adjustRelayRequestForPingResponse hexOfNumber
        \<lparr>maxFeePerGas = ''100'', maxPriorityFeePerGas = ''100''\<rparr>
        \<lparr>pingResponse = \<lparr>minMaxPriorityFeePerGas = ''110'', minMaxFeePerGas = ''0x96''\<rparr>\<rparr>
      = \<lparr>relayInfo = \<lparr>pingResponse = \<lparr>minMaxPriorityFeePerGas = ''110'', minMaxFeePerGas = ''0x96''\<rparr>\<rparr>,
         maxDeltaPercent = Num 50,
         updatedGasFees = \<lparr>maxFeePerGas = ''0x96'', maxPriorityFeePerGas = ''0x6e''\<rparr>\<rparr>
   \<and> num_ge (maxDeltaPercent (adjustRelayRequestForPingResponse hexOfNumber
        \<lparr>maxFeePerGas = ''100'', maxPriorityFeePerGas = ''100''\<rparr>
        \<lparr>pingResponse = \<lparr>minMaxPriorityFeePerGas = ''110'', minMaxFeePerGas = ''0x96''\<rparr>\<rparr>)) (Num 10)
   \<and> adjustGasCostParameterUp (parseInt ''0'') (parseInt ''5'')
     = \<lparr>newValue = Num 5, deltaPercent = PosInfinity\<rparr>
   \<and> adjustRelayRequestForPingResponse hexOfNumber
        \<lparr>maxFeePerGas = ''0'', maxPriorityFeePerGas = ''100''\<rparr>
        \<lparr>pingResponse = \<lparr>minMaxPriorityFeePerGas = ''110'', minMaxFeePerGas = ''5''\<rparr>\<rparr>
      = \<lparr>relayInfo = \<lparr>pingResponse = \<lparr>minMaxPriorityFeePerGas = ''110'', minMaxFeePerGas = ''5''\<rparr>\<rparr>,
         maxDeltaPercent = PosInfinity,
         updatedGasFees = \<lparr>maxFeePerGas = ''0x5'', maxPriorityFeePerGas = ''0x6e''\<rparr>\<rparr>"
proof -
  let ?fees = "\<lparr>maxFeePerGas = ''100'', maxPriorityFeePerGas = ''100''\<rparr>"
  let ?info = "\<lparr>pingResponse = \<lparr>minMaxPriorityFeePerGas = ''110'', minMaxFeePerGas = ''0x96''\<rparr>\<rparr>"
  have p: "parseInt ''100'' = Num 100" "parseInt ''110'' = Num 110" "parseInt ''0x96'' = Num 150"
    "parseInt ''0'' = Num 0" "parseInt ''5'' = Num 5"
    by (simp_all add: parseInt_eval)
  have a: "adjustGasCostParameterUp (Num 100) (Num 110) = \<lparr>newValue = Num 110, deltaPercent = Num 10\<rparr>"
    "adjustGasCostParameterUp (Num 100) (Num 150) = \<lparr>newValue = Num 150, deltaPercent = Num 50\<rparr>"
    "adjustGasCostParameterUp (Num 0) (Num 5) = \<lparr>newValue = Num 5, deltaPercent = PosInfinity\<rparr>"
    by (simp_all add: fee_eval)
  have fin: "isFinite (parseInt (maxPriorityFeePerGas ?fees))"
    "isFinite (parseInt (minMaxPriorityFeePerGas (pingResponse ?info)))"
    "isFinite (parseInt (maxFeePerGas ?fees))"
    "isFinite (parseInt (minMaxFeePerGas (pingResponse ?info)))"
    by (simp_all add: p)
  have "num_ge (maxDeltaPercent (adjustRelayRequestForPingResponse hexOfNumber ?fees ?info))
          (deltaPercent (adjustGasCostParameterUp (parseInt (maxPriorityFeePerGas ?fees))
                      (parseInt (minMaxPriorityFeePerGas (pingResponse ?info)))))"
    using adjustRelayRequestForPingResponse_max [OF fin refl refl refl, of hexOfNumber] by blast
  then have ge: "num_ge (maxDeltaPercent (adjustRelayRequestForPingResponse hexOfNumber ?fees ?info))
          (Num 10)"
    by (simp add: p a)
  have r1: "adjustRelayRequestForPingResponse hexOfNumber ?fees ?info
      = \<lparr>relayInfo = ?info, maxDeltaPercent = Num 50,
         updatedGasFees = \<lparr>maxFeePerGas = ''0x96'', maxPriorityFeePerGas = ''0x6e''\<rparr>\<rparr>"
    by (simp add: adjustRelayRequestForPingResponse_def Let_def p a Math_max_def isZero_def)
  have r2: "adjustRelayRequestForPingResponse hexOfNumber
        \<lparr>maxFeePerGas = ''0'', maxPriorityFeePerGas = ''100''\<rparr>
        \<lparr>pingResponse = \<lparr>minMaxPriorityFeePerGas = ''110'', minMaxFeePerGas = ''5''\<rparr>\<rparr>
      = \<lparr>relayInfo = \<lparr>pingResponse = \<lparr>minMaxPriorityFeePerGas = ''110'', minMaxFeePerGas = ''5''\<rparr>\<rparr>,
         maxDeltaPercent = PosInfinity,
         updatedGasFees = \<lparr>maxFeePerGas = ''0x5'', maxPriorityFeePerGas = ''0x6e''\<rparr>\<rparr>"
    by (simp add: adjustRelayRequestForPingResponse_def Let_def p a Math_max_def isZero_def)
  show ?thesis using ge r1 r2 by (simp only: p a simp_thms)
qed

section \<open>Properties of the checks of waitForSuccess\<close>

lemma indexOfFrom_nth:
  "i < length xs \<Longrightarrow> (indexOfFrom xs (xs ! i) k = k + int i) = (xs ! i \<notin> set (take i xs))"
proof (induction xs arbitrary: i k)
  case Nil
  then show ?case by simp
next
  case (Cons y ys)
  show ?case
  proof (cases i)
    case 0
    then show ?thesis by simp
  next
    case (Suc j)
    with Cons.prems have j: "j < length ys" by simp
    show ?thesis using Cons.IH [OF j, of "k + 1"] Suc by auto
  qed
qed

lemma indexOf_nth:
  "i < length xs \<Longrightarrow> (indexOf xs (xs ! i) = int i) = (xs ! i \<notin> set (take i xs))"
  using indexOfFrom_nth [of i xs 0] by (simp add: indexOf_def)

lemma distinct_first_occurrence:
  "distinct xs = (\<forall>j < length xs. xs ! j \<notin> set (take j xs))"
proof (induction xs rule: rev_induct)
  case Nil
  then show ?case by simp
next
  case (snoc x xs)
  have "(\<forall>j < Suc (length xs). (xs @ [x]) ! j \<notin> set (take j (xs @ [x])))
        = ((\<forall>j < length xs. xs ! j \<notin> set (take j xs)) \<and> x \<notin> set xs)"
    by (auto simp: less_Suc_eq nth_append)
  with snoc show ?case by auto
qed

lemma checkKeys_None:
  "(checkKeys errorKeys i = None)
   = (\<forall>j. i \<le> j \<and> j < length errorKeys \<longrightarrow> errorKeys ! j \<notin> set (take j errorKeys))"
proof (induction errorKeys i rule: checkKeys.induct)
  case (1 errorKeys i)
  show ?case
  proof (cases "i < length errorKeys")
    case False
    then show ?thesis by (subst checkKeys.simps) simp
  next
    case True
    show ?thesis
    proof (cases "indexOf errorKeys (errorKeys ! i) = int i")
      case False
      then have "errorKeys ! i \<in> set (take i errorKeys)"
        using indexOf_nth [OF True] by simp
      with True False show ?thesis
        by (subst checkKeys.simps) (auto simp: Let_def)
    next
      case eq: True
      then have fresh: "errorKeys ! i \<notin> set (take i errorKeys)"
        using indexOf_nth [OF True] by simp
      have "checkKeys errorKeys i = checkKeys errorKeys (i + 1)"
        using True eq by (subst checkKeys.simps) (simp add: Let_def)
      also have "(\<dots> = None)
          = (\<forall>j. i + 1 \<le> j \<and> j < length errorKeys \<longrightarrow> errorKeys ! j \<notin> set (take j errorKeys))"
        using 1 [OF True refl] eq by simp
      also have "\<dots>
          = (\<forall>j. i \<le> j \<and> j < length errorKeys \<longrightarrow> errorKeys ! j \<notin> set (take j errorKeys))"
      proof -
        have "\<And>j. (i \<le> j) = (j = i \<or> i + 1 \<le> j)" by auto
        then show ?thesis using fresh by auto
      qed
      finally show ?thesis .
    qed
  qed
qed

lemma checkKeys_distinct: "(checkKeys errorKeys 0 = None) = distinct errorKeys"
  by (simp add: checkKeys_None distinct_first_occurrence)

lemma checkKeys_Some:
  "checkKeys errorKeys i = Some e \<Longrightarrow>
   e = Error ''waitForSuccess: duplicate relay URL keys, aborting''"
proof (induction errorKeys i rule: checkKeys.induct)
  case (1 errorKeys i)
  from "1.prems" show ?case
    by (subst (asm) checkKeys.simps) (auto simp: Let_def split: if_splits intro: 1)
qed

lemma checkKeys_duplicate:
  "\<not> distinct errorKeys \<Longrightarrow>
   checkKeys errorKeys 0 = Some (Error ''waitForSuccess: duplicate relay URL keys, aborting'')"
  using checkKeys_distinct [of errorKeys] checkKeys_Some [of errorKeys 0]
  by (cases "checkKeys errorKeys 0") auto

section \<open>The object ret under the handlers\<close>

lemma update_fresh: "k \<notin> fst ` set ps \<Longrightarrow> AList.update k v ps = ps @ [(k, v)]"
  by (induction ps) auto

lemma successes_append: "successes (as @ bs) = successes as @ successes bs"
  by (induction as rule: successes.induct) auto

lemma failures_append: "failures K (as @ bs) = failures K as @ failures K bs"
  by (induction K as rule: failures.induct) auto

lemma count_arrivals: "length (successes as) + length (failures K as) = length as"
  by (induction K as rule: failures.induct) auto

lemma ret_fireTimer: "ret (fireTimer s) = ret s"
  by (simp add: fireTimer_def complete_def split: option.splits)

lemma results_settle:
  "results (ret (settle K g n a s)) = results (ret s) @ successes [a]"
  by (cases "(K, g, n, a, s)" rule: settle.cases)
     (auto simp: onFinally_def onThen_def setTimeout_def onCatch_def complete_def Let_def)

lemma errors_settle:
  "distinct (map fst (errors (ret s)) @ map fst (failures K [a])) \<Longrightarrow>
   errors (ret (settle K g n a s)) = errors (ret s) @ failures K [a]"
  by (cases "(K, g, n, a, s)" rule: settle.cases)
     (auto simp: onFinally_def onThen_def setTimeout_def onCatch_def complete_def Let_def update_fresh)

lemma results_eventLoop:
  "results (ret (eventLoop K g n as s)) = results (ret s) @ successes as"
proof (induction as arbitrary: s)
  case Nil
  then show ?case by (simp add: ret_fireTimer)
next
  case (Cons a as)
  have "successes (a # as) = successes [a] @ successes as"
    using successes_append [of "[a]" as] by simp
  then show ?case by (simp add: Cons.IH results_settle ret_fireTimer)
qed

lemma errors_eventLoop:
  "distinct (map fst (errors (ret s)) @ map fst (failures K as)) \<Longrightarrow>
   errors (ret (eventLoop K g n as s)) = errors (ret s) @ failures K as"
proof (induction as arbitrary: s)
  case Nil
  then show ?case by (simp add: ret_fireTimer)
next
  case (Cons a as)
  let ?s1 = "if timerDueBefore s (fst a) then fireTimer s else s"
  have split: "failures K (a # as) = failures K [a] @ failures K as"
    using failures_append [of K "[a]" as] by simp
  have d1: "distinct (map fst (errors (ret ?s1)) @ map fst (failures K [a]))"
    using Cons.prems by (auto simp: split ret_fireTimer)
  have e1: "errors (ret (settle K g n a ?s1)) = errors (ret s) @ failures K [a]"
    using errors_settle [OF d1] by (simp add: ret_fireTimer)
  have d2: "distinct (map fst (errors (ret (settle K g n a ?s1))) @ map fst (failures K as))"
    using Cons.prems by (simp add: e1 split)
  show ?case
    using Cons.IH [OF d2] by (simp add: e1 split)
qed

lemma successes_Cons: "successes [a] @ successes as = successes (a # as)"
  using successes_append [of "[a]" as] by simp

lemma failures_Cons: "failures K [a] @ failures K as = failures K (a # as)"
  using failures_append [of K "[a]" as] by simp

lemma race_eqI:
  "ret s = r \<Longrightarrow> timer s = tm \<Longrightarrow> resolvedAt s = ra \<Longrightarrow> s = \<lparr>ret = r, timer = tm, resolvedAt = ra\<rparr>"
  by (cases s) simp

lemma ret_eqI:
  "results r = xs \<Longrightarrow> errors r = es \<Longrightarrow> r = \<lparr>results = xs, errors = es\<rparr>"
  by (cases r) simp

lemma timer_settle:
  "timer (settle K g n a s)
   = (if results (ret s) = [] \<and> successes [a] \<noteq> [] then Some (fst a + timeoutDelay g) else timer s)"
  by (cases "(K, g, n, a, s)" rule: settle.cases)
     (auto simp: onFinally_def onThen_def setTimeout_def onCatch_def complete_def Let_def)

lemma resolvedAt_settle:
  assumes "distinct (map fst (errors (ret s)) @ map fst (failures K [a]))"
    and "resolvedAt s = None"
  shows "resolvedAt (settle K g n a s)
   = (if Suc (length (results (ret s)) + length (errors (ret s))) = n then Some (fst a) else None)"
  using assms
  by (cases "(K, g, n, a, s)" rule: settle.cases)
     (auto simp: onFinally_def onThen_def setTimeout_def onCatch_def complete_def Let_def update_fresh)

lemma fireTimer_armed:
  "timer s = Some d \<Longrightarrow> resolvedAt s = None \<Longrightarrow>
   fireTimer s = \<lparr>ret = ret s, timer = None, resolvedAt = Some d\<rparr>"
  by (cases s) (simp add: fireTimer_def complete_def)

lemma fireTimer_idle: "timer s = None \<Longrightarrow> fireTimer s = s"
  by (simp add: fireTimer_def)

lemma await_after_success:
  assumes "timer s = Some d" and "resolvedAt s = None"
    and "results (ret s) \<noteq> []"
    and "length (results (ret s)) + length (errors (ret s)) < n"
    and "length (results (ret s)) + length (errors (ret s)) + length as \<le> n"
    and "distinct (map fst (errors (ret s)) @ map fst (failures K as))"
  shows "awaitResolved K g n as s = Some
     (let pre = takeWhile (\<lambda>a. fst a \<le> d) as;
          all = (pre = as \<and> length (results (ret s)) + length (errors (ret s)) + length as = n)
      in \<lparr>ret = \<lparr>results = results (ret s) @ successes pre, errors = errors (ret s) @ failures K pre\<rparr>,
          timer = (if all then Some d else None),
          resolvedAt = Some (if all then fst (last as) else d)\<rparr>)"
  using assms
proof (induction as arbitrary: s)
  case Nil
  have "ret s = \<lparr>results = results (ret s), errors = errors (ret s)\<rparr>"
    by (rule ret_eqI) simp_all
  with Nil show ?case
    by (simp add: fireTimer_armed Let_def)
next
  case (Cons a as)
  have rs: "ret s = \<lparr>results = results (ret s), errors = errors (ret s)\<rparr>"
    by (rule ret_eqI) simp_all
  show ?case
  proof (cases "d < fst a")
    case True
    then have "timerDueBefore s (fst a)" using Cons.prems(1) by (simp add: timerDueBefore_def)
    then have "awaitResolved K g n (a # as) s = Some (fireTimer s)"
      using Cons.prems(1,2) by (simp add: fireTimer_armed)
    with True rs Cons.prems(1,2) show ?thesis
      by (simp add: fireTimer_armed Let_def)
  next
    case False
    then have nd: "\<not> timerDueBefore s (fst a)" and le: "fst a \<le> d"
      using Cons.prems(1) by (simp_all add: timerDueBefore_def)
    let ?c = "length (results (ret s)) + length (errors (ret s))"
    let ?s2 = "settle K g n a s"
    have split: "failures K (a # as) = failures K [a] @ failures K as"
        "successes (a # as) = successes [a] @ successes as"
      using failures_append [of K "[a]" as] successes_append [of "[a]" as] by simp_all
    have d1: "distinct (map fst (errors (ret s)) @ map fst (failures K [a]))"
      using Cons.prems(6) by (auto simp: split)
    have r2: "results (ret ?s2) = results (ret s) @ successes [a]"
      by (rule results_settle)
    have e2: "errors (ret ?s2) = errors (ret s) @ failures K [a]"
      by (rule errors_settle [OF d1])
    have t2: "timer ?s2 = Some d"
      using Cons.prems(1,3) by (simp add: timer_settle)
    have a2: "resolvedAt ?s2 = (if Suc ?c = n then Some (fst a) else None)"
      by (rule resolvedAt_settle [OF d1 Cons.prems(2)])
    have cnt: "length (results (ret ?s2)) + length (errors (ret ?s2)) = Suc ?c"
      using r2 e2 count_arrivals [of "[a]" K] by simp
    show ?thesis
    proof (cases "Suc ?c = n")
      case True
      then have as: "as = []" using Cons.prems(5) by auto
      have "awaitResolved K g n (a # as) s = Some ?s2"
        using nd Cons.prems(2) a2 True by (simp del: settle.simps)
      moreover have "?s2 = \<lparr>ret = \<lparr>results = results (ret s) @ successes [a],
                                 errors = errors (ret s) @ failures K [a]\<rparr>,
                          timer = Some d, resolvedAt = Some (fst a)\<rparr>"
        using r2 e2 t2 a2 True by (intro race_eqI ret_eqI) simp_all
      ultimately show ?thesis
        using as le True by (simp add: Let_def del: settle.simps)
    next
      case False
      have ih: "awaitResolved K g n as ?s2 = Some
         (let pre = takeWhile (\<lambda>a. fst a \<le> d) as;
              all = (pre = as \<and> length (results (ret ?s2)) + length (errors (ret ?s2)) + length as = n)
          in \<lparr>ret = \<lparr>results = results (ret ?s2) @ successes pre, errors = errors (ret ?s2) @ failures K pre\<rparr>,
              timer = (if all then Some d else None),
              resolvedAt = Some (if all then fst (last as) else d)\<rparr>)"
      proof (rule Cons.IH)
        show "timer ?s2 = Some d" by (rule t2)
        show "resolvedAt ?s2 = None" using a2 False by simp
        show "results (ret ?s2) \<noteq> []" using r2 Cons.prems(3) by simp
        show "length (results (ret ?s2)) + length (errors (ret ?s2)) < n"
          using cnt False Cons.prems(4) by simp
        show "length (results (ret ?s2)) + length (errors (ret ?s2)) + length as \<le> n"
          using cnt Cons.prems(5) by simp
        show "distinct (map fst (errors (ret ?s2)) @ map fst (failures K as))"
          using e2 Cons.prems(6) by (simp add: split)
      qed
      have nonempty: "Suc ?c + length as = n \<Longrightarrow> as \<noteq> []" using False by auto
      have "awaitResolved K g n (a # as) s = awaitResolved K g n as ?s2"
        using nd a2 False Cons.prems(2) by (simp del: settle.simps)
      also note ih
      finally have eq: "awaitResolved K g n (a # as) s = Some
         (let pre = takeWhile (\<lambda>a. fst a \<le> d) as;
              all = (pre = as \<and> length (results (ret ?s2)) + length (errors (ret ?s2)) + length as = n)
          in \<lparr>ret = \<lparr>results = results (ret ?s2) @ successes pre, errors = errors (ret ?s2) @ failures K pre\<rparr>,
              timer = (if all then Some d else None),
              resolvedAt = Some (if all then fst (last as) else d)\<rparr>)" .
      show ?thesis
        unfolding eq using le nonempty count_arrivals [of "[a]" K]
        by (auto simp: Let_def r2 e2 successes_Cons failures_Cons simp del: settle.simps)
    qed
  qed
qed

section \<open>When the promise of waitForSuccess is resolved\<close>

lemma successes_Nil_Cons: "successes (a # as) = [] \<Longrightarrow> successes [a] = [] \<and> successes as = []"
  by (cases "a # as" rule: successes.cases) simp_all

lemma await_all_rejected:
  assumes "timer s = None" and "resolvedAt s = None" and "results (ret s) = []"
    and "length (errors (ret s)) + length as \<le> n"
    and "distinct (map fst (errors (ret s)) @ map fst (failures K as))"
    and "successes as = []"
  shows "awaitResolved K g n as s =
     (if as \<noteq> [] \<and> length (errors (ret s)) + length as = n
      then Some \<lparr>ret = \<lparr>results = [], errors = errors (ret s) @ failures K as\<rparr>,
                 timer = None, resolvedAt = Some (fst (last as))\<rparr>
      else None)"
  using assms
proof (induction as arbitrary: s)
  case Nil
  then show ?case by (simp add: fireTimer_idle)
next
  case (Cons a as)
  let ?c = "length (errors (ret s))"
  let ?s2 = "settle K g n a s"
  have nd: "\<not> timerDueBefore s (fst a)"
    using Cons.prems(1) by (simp add: timerDueBefore_def)
  have none: "successes [a] = []" "successes as = []"
    using successes_Nil_Cons [OF Cons.prems(6)] by simp_all
  have split: "failures K (a # as) = failures K [a] @ failures K as"
    by (rule failures_Cons [symmetric])
  have d1: "distinct (map fst (errors (ret s)) @ map fst (failures K [a]))"
    using Cons.prems(5) by (auto simp: split)
  have r2: "results (ret ?s2) = []"
    using results_settle [of K g n a s] none Cons.prems(3) by simp
  have e2: "errors (ret ?s2) = errors (ret s) @ failures K [a]"
    by (rule errors_settle [OF d1])
  have t2: "timer ?s2 = None"
    using Cons.prems(1) none by (simp add: timer_settle)
  have a2: "resolvedAt ?s2 = (if Suc ?c = n then Some (fst a) else None)"
    using resolvedAt_settle [OF d1 Cons.prems(2), of g n] Cons.prems(3) by simp
  have one: "length (failures K [a]) = Suc 0"
    using count_arrivals [of "[a]" K] none by simp
  show ?case
  proof (cases "Suc ?c = n")
    case True
    then have as: "as = []" using Cons.prems(4) by auto
    have "awaitResolved K g n (a # as) s = Some ?s2"
      using nd Cons.prems(2) a2 True by (simp del: settle.simps)
    moreover have "?s2 = \<lparr>ret = \<lparr>results = [], errors = errors (ret s) @ failures K [a]\<rparr>,
                          timer = None, resolvedAt = Some (fst a)\<rparr>"
      using r2 e2 t2 a2 True by (intro race_eqI ret_eqI) simp_all
    ultimately show ?thesis
      using as True by (simp del: settle.simps)
  next
    case False
    have ih: "awaitResolved K g n as ?s2 =
       (if as \<noteq> [] \<and> length (errors (ret ?s2)) + length as = n
        then Some \<lparr>ret = \<lparr>results = [], errors = errors (ret ?s2) @ failures K as\<rparr>,
                   timer = None, resolvedAt = Some (fst (last as))\<rparr>
        else None)"
    proof (rule Cons.IH)
      show "timer ?s2 = None" by (rule t2)
      show "resolvedAt ?s2 = None" using a2 False by simp
      show "results (ret ?s2) = []" by (rule r2)
      show "length (errors (ret ?s2)) + length as \<le> n"
        using e2 one Cons.prems(4) by simp
      show "distinct (map fst (errors (ret ?s2)) @ map fst (failures K as))"
        using e2 Cons.prems(5) by (simp add: split)
      show "successes as = []" by (rule none)
    qed
    have "awaitResolved K g n (a # as) s = awaitResolved K g n as ?s2"
      using nd a2 False Cons.prems(2) by (simp del: settle.simps)
    also note ih
    finally have eq: "awaitResolved K g n (a # as) s =
       (if as \<noteq> [] \<and> length (errors (ret ?s2)) + length as = n
        then Some \<lparr>ret = \<lparr>results = [], errors = errors (ret ?s2) @ failures K as\<rparr>,
                   timer = None, resolvedAt = Some (fst (last as))\<rparr>
        else None)" .
    show ?thesis
      unfolding eq using False one
      by (auto simp: e2 failures_Cons simp del: settle.simps)
  qed
qed

lemma await_first_success:
  assumes "timer s = None" and "resolvedAt s = None" and "results (ret s) = []"
    and "length (errors (ret s)) + length (rej @ (t0, i0, Fulfilled v0) # rest) \<le> n"
    and "distinct (map fst (errors (ret s)) @ map fst (failures K (rej @ (t0, i0, Fulfilled v0) # rest)))"
    and "successes rej = []"
  shows "awaitResolved K g n (rej @ (t0, i0, Fulfilled v0) # rest) s = Some
     (let pre = takeWhile (\<lambda>a. fst a \<le> t0 + timeoutDelay g) rest;
          all = (pre = rest \<and> length (errors (ret s)) + length (rej @ (t0, i0, Fulfilled v0) # rest) = n)
      in \<lparr>ret = \<lparr>results = v0 # successes pre,
                 errors = errors (ret s) @ failures K rej @ failures K pre\<rparr>,
          timer = (if all then Some (t0 + timeoutDelay g) else None),
          resolvedAt = Some (if all then fst (last ((t0, i0, Fulfilled v0) # rest)) else t0 + timeoutDelay g)\<rparr>)"
  using assms
proof (induction rej arbitrary: s)
  case Nil
  let ?a = "(t0, i0, Fulfilled v0) :: 'a arrival"
  let ?c = "length (errors (ret s))"
  let ?s2 = "settle K g n ?a s"
  have nd: "\<not> timerDueBefore s (fst ?a)"
    using Nil.prems(1) by (simp add: timerDueBefore_def)
  have d1: "distinct (map fst (errors (ret s)) @ map fst (failures K [?a]))"
    using Nil.prems(5) by simp
  have r2: "results (ret ?s2) = [v0]"
    using results_settle [of K g n ?a s] Nil.prems(3) by simp
  have e2: "errors (ret ?s2) = errors (ret s)"
    using errors_settle [OF d1, of g n] by simp
  have t2: "timer ?s2 = Some (t0 + timeoutDelay g)"
    using Nil.prems(3) timer_settle [of K g n ?a s] by simp
  have a2: "resolvedAt ?s2 = (if Suc ?c = n then Some t0 else None)"
    using resolvedAt_settle [OF d1 Nil.prems(2), of g n] Nil.prems(3) by simp
  show ?case
  proof (cases "Suc ?c = n")
    case True
    then have rest: "rest = []" using Nil.prems(4) by auto
    have "awaitResolved K g n (?a # rest) s = Some ?s2"
      using nd Nil.prems(2) a2 True by (simp del: settle.simps)
    moreover have "?s2 = \<lparr>ret = \<lparr>results = [v0], errors = errors (ret s)\<rparr>,
                          timer = Some (t0 + timeoutDelay g), resolvedAt = Some t0\<rparr>"
      using r2 e2 t2 a2 True by (intro race_eqI ret_eqI) simp_all
    ultimately show ?thesis
      using rest True by (simp add: Let_def del: settle.simps)
  next
    case False
    have after: "awaitResolved K g n rest ?s2 = Some
       (let pre = takeWhile (\<lambda>a. fst a \<le> t0 + timeoutDelay g) rest;
            all = (pre = rest \<and> length (results (ret ?s2)) + length (errors (ret ?s2)) + length rest = n)
        in \<lparr>ret = \<lparr>results = results (ret ?s2) @ successes pre,
                   errors = errors (ret ?s2) @ failures K pre\<rparr>,
            timer = (if all then Some (t0 + timeoutDelay g) else None),
            resolvedAt = Some (if all then fst (last rest) else t0 + timeoutDelay g)\<rparr>)"
    proof (rule await_after_success)
      show "timer ?s2 = Some (t0 + timeoutDelay g)" by (rule t2)
      show "resolvedAt ?s2 = None" using a2 False by simp
      show "results (ret ?s2) \<noteq> []" using r2 by simp
      show "length (results (ret ?s2)) + length (errors (ret ?s2)) < n"
        using r2 e2 False Nil.prems(4) by simp
      show "length (results (ret ?s2)) + length (errors (ret ?s2)) + length rest \<le> n"
        using r2 e2 Nil.prems(4) by simp
      show "distinct (map fst (errors (ret ?s2)) @ map fst (failures K rest))"
        using e2 Nil.prems(5) by simp
    qed
    have "awaitResolved K g n (?a # rest) s = awaitResolved K g n rest ?s2"
      using nd a2 False Nil.prems(2) by (simp del: settle.simps)
    also note after
    finally have eq: "awaitResolved K g n (?a # rest) s = Some
       (let pre = takeWhile (\<lambda>a. fst a \<le> t0 + timeoutDelay g) rest;
            all = (pre = rest \<and> length (results (ret ?s2)) + length (errors (ret ?s2)) + length rest = n)
        in \<lparr>ret = \<lparr>results = results (ret ?s2) @ successes pre,
                   errors = errors (ret ?s2) @ failures K pre\<rparr>,
            timer = (if all then Some (t0 + timeoutDelay g) else None),
            resolvedAt = Some (if all then fst (last rest) else t0 + timeoutDelay g)\<rparr>)" .
    have nonempty: "Suc ?c + length rest = n \<Longrightarrow> rest \<noteq> []" using False by auto
    show ?thesis
      using nonempty by (simp only: append_Nil eq) (auto simp: Let_def r2 e2 simp del: settle.simps)
  qed
next
  case (Cons r rej)
  let ?es = "rej @ (t0, i0, Fulfilled v0) # rest"
  let ?c = "length (errors (ret s))"
  let ?s2 = "settle K g n r s"
  have nd: "\<not> timerDueBefore s (fst r)"
    using Cons.prems(1) by (simp add: timerDueBefore_def)
  have none: "successes [r] = []" "successes rej = []"
    using successes_Nil_Cons [OF Cons.prems(6)] by simp_all
  have split: "failures K (r # ?es) = failures K [r] @ failures K ?es"
    by (rule failures_Cons [symmetric])
  have d1: "distinct (map fst (errors (ret s)) @ map fst (failures K [r]))"
    using Cons.prems(5) by (auto simp: split)
  have r2: "results (ret ?s2) = []"
    using results_settle [of K g n r s] none Cons.prems(3) by simp
  have e2: "errors (ret ?s2) = errors (ret s) @ failures K [r]"
    by (rule errors_settle [OF d1])
  have t2: "timer ?s2 = None"
    using Cons.prems(1) none by (simp add: timer_settle)
  have more: "Suc ?c \<noteq> n" using Cons.prems(4) by auto
  have a2: "resolvedAt ?s2 = None"
    using resolvedAt_settle [OF d1 Cons.prems(2), of g n] Cons.prems(3) more by simp
  have one: "length (failures K [r]) = Suc 0"
    using count_arrivals [of "[r]" K] none by simp
  have ih: "awaitResolved K g n ?es ?s2 = Some
     (let pre = takeWhile (\<lambda>a. fst a \<le> t0 + timeoutDelay g) rest;
          all = (pre = rest \<and> length (errors (ret ?s2)) + length ?es = n)
      in \<lparr>ret = \<lparr>results = v0 # successes pre,
                 errors = errors (ret ?s2) @ failures K rej @ failures K pre\<rparr>,
          timer = (if all then Some (t0 + timeoutDelay g) else None),
          resolvedAt = Some (if all then fst (last ((t0, i0, Fulfilled v0) # rest)) else t0 + timeoutDelay g)\<rparr>)"
  proof (rule Cons.IH)
    show "timer ?s2 = None" by (rule t2)
    show "resolvedAt ?s2 = None" by (rule a2)
    show "results (ret ?s2) = []" by (rule r2)
    show "length (errors (ret ?s2)) + length ?es \<le> n"
      using e2 one Cons.prems(4) by simp
    show "distinct (map fst (errors (ret ?s2)) @ map fst (failures K ?es))"
      using e2 Cons.prems(5) by (simp add: split)
    show "successes rej = []" by (rule none)
  qed
  have "awaitResolved K g n ((r # rej) @ (t0, i0, Fulfilled v0) # rest) s
        = awaitResolved K g n ?es ?s2"
    using nd a2 Cons.prems(2) by (simp del: settle.simps)
  also note ih
  finally have eq: "awaitResolved K g n ((r # rej) @ (t0, i0, Fulfilled v0) # rest) s = Some
     (let pre = takeWhile (\<lambda>a. fst a \<le> t0 + timeoutDelay g) rest;
          all = (pre = rest \<and> length (errors (ret ?s2)) + length ?es = n)
      in \<lparr>ret = \<lparr>results = v0 # successes pre,
                 errors = errors (ret ?s2) @ failures K rej @ failures K pre\<rparr>,
          timer = (if all then Some (t0 + timeoutDelay g) else None),
          resolvedAt = Some (if all then fst (last ((t0, i0, Fulfilled v0) # rest)) else t0 + timeoutDelay g)\<rparr>)" .
  show ?case
    unfolding eq using one
    by (simp add: Let_def e2 failures_Cons del: settle.simps)
qed

section \<open>The order of arrival\<close>

lemma settledFrom_Cons:
  "settledFrom k (p # ps)
   = (case p of None \<Rightarrow> settledFrom (Suc k) ps
      | Some (t, x) \<Rightarrow> (t, k, x) # settledFrom (Suc k) ps)"
  by (cases p) auto

lemma set_settledFrom:
  "((t, i, x) \<in> set (settledFrom k ps)) = (k \<le> i \<and> i < k + length ps \<and> ps ! (i - k) = Some (t, x))"
proof (induction ps arbitrary: k i)
  case Nil
  then show ?case by simp
next
  case (Cons p ps)
  have shift: "\<And>i. Suc k \<le> i \<Longrightarrow> (p # ps) ! (i - k) = ps ! (i - Suc k)"
    by (simp add: Suc_diff_le)
  show ?case
  proof (cases "i = k")
    case True
    have "(t, k, x) \<notin> set (settledFrom (Suc k) ps)"
      by (simp add: Cons.IH)
    with True show ?thesis
      by (auto simp: settledFrom_Cons split: option.splits)
  next
    case False
    then have "(k \<le> i) = (Suc k \<le> i)" by auto
    with False shift [of i] show ?thesis
      by (auto simp: settledFrom_Cons Cons.IH split: option.splits)
  qed
qed

lemma distinct_settledFrom: "distinct (map (\<lambda>a. fst (snd a)) (settledFrom k ps))"
proof (induction ps arbitrary: k)
  case Nil
  then show ?case by simp
next
  case (Cons p ps)
  have "k \<notin> (\<lambda>a. fst (snd a)) ` set (settledFrom (Suc k) ps)"
    by (auto simp: set_settledFrom)
  with Cons.IH [of "Suc k"] show ?case
    by (auto simp: settledFrom_Cons split: option.splits)
qed

lemma length_settledFrom: "length (settledFrom k ps) \<le> length ps"
  by (induction ps arbitrary: k) (auto simp: settledFrom_Cons le_SucI split: option.splits)

lemma length_settledFrom_all:
  "(length (settledFrom k ps) = length ps) = (\<forall>p \<in> set ps. p \<noteq> None)"
proof (induction ps arbitrary: k)
  case Nil
  then show ?case by simp
next
  case (Cons p ps)
  have "length (settledFrom (Suc k) ps) \<le> length ps" by (rule length_settledFrom)
  then have "length (settledFrom (Suc k) ps) \<noteq> Suc (length ps)" by simp
  with Cons.IH [of "Suc k"] show ?case
    by (auto simp: settledFrom_Cons split: option.splits)
qed

lemma arrivals_settledFrom: "arrivals ps = sort_key fst (settledFrom 0 ps)"
  by (simp add: arrivals_def)

lemma set_arrivals:
  "((t, i, x) \<in> set (arrivals ps)) = (i < length ps \<and> ps ! i = Some (t, x))"
  by (simp add: arrivals_settledFrom set_settledFrom)

lemma sorted_arrivals: "sorted (map fst (arrivals ps))"
  by (simp add: arrivals_settledFrom)

lemma length_arrivals: "length (arrivals ps) \<le> length ps"
  by (simp add: arrivals_settledFrom length_settledFrom)

lemma length_arrivals_all:
  "(length (arrivals ps) = length ps) = (\<forall>i < length ps. ps ! i \<noteq> None)"
  by (simp add: arrivals_settledFrom length_settledFrom_all all_set_conv_all_nth)

lemma distinct_arrivals: "distinct (map (\<lambda>a. fst (snd a)) (arrivals ps))"
  using distinct_settledFrom [of 0 ps] by (simp add: arrivals_settledFrom distinct_map)

lemma failures_keys:
  "k \<in> fst ` set (failures K as) \<Longrightarrow> \<exists>a \<in> set as. k = K ! fst (snd a)"
  by (induction K as rule: failures.induct) auto

lemma distinct_failures:
  assumes "distinct K" and "distinct (map (\<lambda>a. fst (snd a)) as)"
    and "\<forall>a \<in> set as. fst (snd a) < length K"
  shows "distinct (map fst (failures K as))"
  using assms(2,3)
proof (induction as)
  case Nil
  then show ?case by simp
next
  case (Cons b as)
  obtain t i x where b: "b = (t, i, x)" by (cases b)
  have ih: "distinct (map fst (failures K as))"
    using Cons by simp
  show ?case
  proof (cases x)
    case (Fulfilled v)
    with b ih show ?thesis by simp
  next
    case (Rejected e)
    have "K ! i \<notin> fst ` set (failures K as)"
    proof
      assume "K ! i \<in> fst ` set (failures K as)"
      then obtain a where a: "a \<in> set as" "K ! i = K ! fst (snd a)"
        using failures_keys by blast
      with Cons.prems b have "i \<noteq> fst (snd a)" "i < length K" "fst (snd a) < length K" by auto
      with a(2) assms(1) show False by (metis nth_eq_iff_index_eq)
    qed
    with Rejected b ih show ?thesis by simp
  qed
qed

lemma distinct_failures_arrivals:
  assumes "distinct K" and "length ps = length K"
  shows "distinct (map fst (failures K (arrivals ps)))"
proof (rule distinct_failures [OF assms(1) distinct_arrivals])
  show "\<forall>a \<in> set (arrivals ps). fst (snd a) < length K"
    using assms(2) by (auto simp: set_arrivals)
qed

lemma waitForSuccess_valid:
  assumes "length ps = length K" and "distinct K"
  shows "waitForSuccess ps K g = Inr (awaitResolved K g (length ps) (arrivals ps) newRace)"
  using assms checkKeys_distinct [of K] by (simp add: waitForSuccess_def)

section \<open>The outcome of a race\<close>

lemma first_success_split:
  "successes as \<noteq> [] \<Longrightarrow>
   \<exists>rej t0 i0 v0 rest. as = rej @ (t0, i0, Fulfilled v0) # rest \<and> successes rej = []"
proof (induction as rule: successes.induct)
  case 1
  then show ?case by simp
next
  case (2 t i v as)
  have "(t, i, Fulfilled v) # as = [] @ (t, i, Fulfilled v) # as \<and> successes [] = []" by simp
  then show ?case by blast
next
  case (3 t i e as)
  then obtain rej t0 i0 v0 rest where "as = rej @ (t0, i0, Fulfilled v0) # rest" "successes rej = []"
    by auto
  then have "(t, i, Rejected e) # as = ((t, i, Rejected e) # rej) @ (t0, i0, Fulfilled v0) # rest
      \<and> successes ((t, i, Rejected e) # rej) = []" by simp
  then show ?case by blast
qed

lemma set_successes: "(w \<in> set (successes as)) = (\<exists>t i. (t, i, Fulfilled w) \<in> set as)"
  by (induction as rule: successes.induct) auto

lemma set_failures:
  "((k, e) \<in> set (failures K as)) = (\<exists>t i. (t, i, Rejected e) \<in> set as \<and> k = K ! i)"
  by (induction K as rule: failures.induct) auto

lemma takeWhile_sorted_filter:
  "sorted (map f xs) \<Longrightarrow> takeWhile (\<lambda>x. f x \<le> (d::nat)) xs = filter (\<lambda>x. f x \<le> d) xs"
proof (induction xs)
  case Nil
  then show ?case by simp
next
  case (Cons x xs)
  show ?case
  proof (cases "f x \<le> d")
    case True
    with Cons show ?thesis by simp
  next
    case False
    with Cons.prems have "\<forall>y \<in> set xs. \<not> f y \<le> d" by auto
    then have "filter (\<lambda>x. f x \<le> d) xs = []" by (simp add: filter_empty_conv)
    with False show ?thesis by simp
  qed
qed

lemma sorted_le_last:
  "sorted (map f xs) \<Longrightarrow> x \<in> set xs \<Longrightarrow> f x \<le> (f (last xs) :: nat)"
proof (induction xs)
  case Nil
  then show ?case by simp
next
  case (Cons y ys)
  show ?case
  proof (cases "ys = []")
    case True
    with Cons.prems show ?thesis by simp
  next
    case False
    then have l: "last ys \<in> set ys" by simp
    from Cons.prems(2) have "x = y \<or> x \<in> set ys" by simp
    then show ?thesis
    proof
      assume "x = y"
      with Cons.prems(1) l False show ?thesis by auto
    next
      assume "x \<in> set ys"
      with Cons False show ?thesis by simp
    qed
  qed
qed

lemma race_without_success:
  assumes "length ps = length K" and "distinct K" and "successes (arrivals ps) = []"
  shows "waitForSuccess ps K g = Inr
     (if arrivals ps \<noteq> [] \<and> length (arrivals ps) = length ps
      then Some \<lparr>ret = \<lparr>results = [], errors = failures K (arrivals ps)\<rparr>,
                 timer = None, resolvedAt = Some (fst (last (arrivals ps)))\<rparr>
      else None)"
proof -
  have "awaitResolved K g (length ps) (arrivals ps) newRace =
     (if arrivals ps \<noteq> [] \<and> length (errors (ret (newRace :: 'a race))) + length (arrivals ps) = length ps
      then Some \<lparr>ret = \<lparr>results = [], errors = errors (ret (newRace :: 'a race)) @ failures K (arrivals ps)\<rparr>,
                 timer = None, resolvedAt = Some (fst (last (arrivals ps)))\<rparr>
      else None)"
  proof (rule await_all_rejected)
    show "timer (newRace :: 'a race) = None" "resolvedAt (newRace :: 'a race) = None"
      "results (ret (newRace :: 'a race)) = []"
      by (simp_all add: newRace_def)
    show "length (errors (ret (newRace :: 'a race))) + length (arrivals ps) \<le> length ps"
      by (simp add: newRace_def length_arrivals)
    show "distinct (map fst (errors (ret (newRace :: 'a race))) @ map fst (failures K (arrivals ps)))"
      using distinct_failures_arrivals [OF assms(2,1)] by (simp add: newRace_def)
    show "successes (arrivals ps) = []" by (rule assms(3))
  qed
  then show ?thesis
    by (simp add: waitForSuccess_valid [OF assms(1,2)] newRace_def)
qed

lemma race_with_success:
  assumes "length ps = length K" and "distinct K" and "successes (arrivals ps) \<noteq> []"
  shows "\<exists>t0 i0 v0. (t0, i0, Fulfilled v0) \<in> set (arrivals ps)
     \<and> (\<forall>t i w. (t, i, Fulfilled w) \<in> set (arrivals ps) \<longrightarrow> t0 \<le> t)
     \<and> waitForSuccess ps K g = Inr (Some
         (let d = t0 + timeoutDelay g;
              pre = filter (\<lambda>a. fst a \<le> d) (arrivals ps);
              all = (pre = arrivals ps \<and> length (arrivals ps) = length ps)
          in \<lparr>ret = \<lparr>results = successes pre, errors = failures K pre\<rparr>,
              timer = (if all then Some d else None),
              resolvedAt = Some (if all then fst (last (arrivals ps)) else d)\<rparr>))"
proof -
  obtain rej t0 i0 v0 rest where es: "arrivals ps = rej @ (t0, i0, Fulfilled v0) # rest"
      and rej: "successes rej = []"
    using first_success_split [OF assms(3)] by blast
  let ?a = "(t0, i0, Fulfilled v0) :: 'a arrival"
  let ?d = "t0 + timeoutDelay g"
  have sorted: "sorted (map fst (rej @ ?a # rest))"
    using sorted_arrivals [of ps] es by simp
  then have rej_le: "\<forall>a \<in> set rej. fst a \<le> t0" and rest_ge: "\<forall>a \<in> set rest. t0 \<le> fst a"
    and sorted_rest: "sorted (map fst rest)"
    by (auto simp: sorted_append)
  have min: "\<forall>t i w. (t, i, Fulfilled w) \<in> set (arrivals ps) \<longrightarrow> t0 \<le> t"
  proof (intro allI impI)
    fix t i w assume "(t, i, Fulfilled w) \<in> set (arrivals ps)"
    moreover have "(t, i, Fulfilled w) \<notin> set rej"
      using rej set_successes [of w rej] by auto
    ultimately show "t0 \<le> t" using es rest_ge by auto
  qed
  have "\<forall>a \<in> set rej. fst a \<le> ?d" using rej_le by auto
  then have "filter (\<lambda>a. fst a \<le> ?d) rej = rej" by (simp add: filter_id_conv)
  then have pre: "filter (\<lambda>a. fst a \<le> ?d) (arrivals ps) = rej @ ?a # takeWhile (\<lambda>a. fst a \<le> ?d) rest"
    by (simp add: es takeWhile_sorted_filter [OF sorted_rest])
  have aw: "awaitResolved K g (length ps) (rej @ ?a # rest) newRace = Some
     (let pre = takeWhile (\<lambda>a. fst a \<le> t0 + timeoutDelay g) rest;
          all = (pre = rest \<and> length (errors (ret (newRace :: 'a race))) + length (rej @ ?a # rest) = length ps)
      in \<lparr>ret = \<lparr>results = v0 # successes pre,
                 errors = errors (ret (newRace :: 'a race)) @ failures K rej @ failures K pre\<rparr>,
          timer = (if all then Some (t0 + timeoutDelay g) else None),
          resolvedAt = Some (if all then fst (last (?a # rest)) else t0 + timeoutDelay g)\<rparr>)"
  proof (rule await_first_success)
    show "timer (newRace :: 'a race) = None" "resolvedAt (newRace :: 'a race) = None"
      "results (ret (newRace :: 'a race)) = []"
      by (simp_all add: newRace_def)
    show "length (errors (ret (newRace :: 'a race))) + length (rej @ ?a # rest) \<le> length ps"
      using length_arrivals [of ps] es by (simp add: newRace_def)
    show "distinct (map fst (errors (ret (newRace :: 'a race))) @ map fst (failures K (rej @ ?a # rest)))"
      using distinct_failures_arrivals [OF assms(2,1)] es by (simp add: newRace_def)
    show "successes rej = []" by (rule rej)
  qed
  let ?pre = "filter (\<lambda>a. fst a \<le> ?d) (arrivals ps)"
  let ?all = "?pre = arrivals ps \<and> length (arrivals ps) = length ps"
  have all: "?all = (takeWhile (\<lambda>a. fst a \<le> ?d) rest = rest \<and> length (rej @ ?a # rest) = length ps)"
    unfolding pre by (simp add: es)
  have "waitForSuccess ps K g = Inr (Some
          \<lparr>ret = \<lparr>results = successes ?pre, errors = failures K ?pre\<rparr>,
           timer = (if ?all then Some ?d else None),
           resolvedAt = Some (if ?all then fst (last (arrivals ps)) else ?d)\<rparr>)"
    unfolding all unfolding pre
    unfolding waitForSuccess_valid [OF assms(1,2)] es aw
    using rej by (simp add: Let_def newRace_def successes_append failures_append)
  then have "waitForSuccess ps K g = Inr (Some
         (let d = t0 + timeoutDelay g;
              pre = filter (\<lambda>a. fst a \<le> d) (arrivals ps);
              all = (pre = arrivals ps \<and> length (arrivals ps) = length ps)
          in \<lparr>ret = \<lparr>results = successes pre, errors = failures K pre\<rparr>,
              timer = (if all then Some d else None),
              resolvedAt = Some (if all then fst (last (arrivals ps)) else d)\<rparr>))"
    by (simp add: Let_def)
  moreover have "(t0, i0, Fulfilled v0) \<in> set (arrivals ps)" using es by simp
  ultimately show ?thesis using min by blast
qed

lemma successes_empty_iff: "(successes as = []) = (\<forall>t i w. (t, i, Fulfilled w) \<notin> set as)"
  by (induction as rule: successes.induct) auto

lemma last_arrival:
  assumes "arrivals ps \<noteq> []"
  shows "\<exists>j x. j < length ps \<and> ps ! j = Some (fst (last (arrivals ps)), x)"
proof -
  obtain t j x where l: "last (arrivals ps) = (t, j, x)" by (cases "last (arrivals ps)")
  have "last (arrivals ps) \<in> set (arrivals ps)" using assms by simp
  with l have "j < length ps \<and> ps ! j = Some (t, x)" by (simp add: set_arrivals)
  with l show ?thesis by auto
qed

lemma arrival_le_last:
  assumes "j < length ps" and "ps ! j = Some (t, x)"
  shows "t \<le> fst (last (arrivals ps))"
proof -
  have "(t, j, x) \<in> set (arrivals ps)" using assms by (simp add: set_arrivals)
  from sorted_le_last [OF sorted_arrivals this] show ?thesis by simp
qed

lemma all_settled_by:
  "(filter (\<lambda>a. fst a \<le> d) (arrivals ps) = arrivals ps \<and> length (arrivals ps) = length ps)
   = (\<forall>j < length ps. \<exists>t x. ps ! j = Some (t, x) \<and> t \<le> d)"
proof
  assume l: "filter (\<lambda>a. fst a \<le> d) (arrivals ps) = arrivals ps \<and> length (arrivals ps) = length ps"
  then have le: "\<forall>a \<in> set (arrivals ps). fst a \<le> d"
    by (simp add: filter_id_conv)
  show "\<forall>j < length ps. \<exists>t x. ps ! j = Some (t, x) \<and> t \<le> d"
  proof (intro allI impI)
    fix j assume j: "j < length ps"
    with l obtain t x where p: "ps ! j = Some (t, x)"
      by (auto simp: length_arrivals_all)
    with j have "(t, j, x) \<in> set (arrivals ps)" by (simp add: set_arrivals)
    with le have "t \<le> d" by auto
    with p show "\<exists>t x. ps ! j = Some (t, x) \<and> t \<le> d" by blast
  qed
next
  assume r: "\<forall>j < length ps. \<exists>t x. ps ! j = Some (t, x) \<and> t \<le> d"
  then have "length (arrivals ps) = length ps"
    by (auto simp: length_arrivals_all)
  moreover have "\<forall>a \<in> set (arrivals ps). fst a \<le> d"
  proof
    fix a assume a: "a \<in> set (arrivals ps)"
    obtain t i x where "a = (t, i, x)" by (cases a)
    with a r show "fst a \<le> d" by (fastforce simp: set_arrivals)
  qed
  ultimately show "filter (\<lambda>a. fst a \<le> d) (arrivals ps) = arrivals ps \<and> length (arrivals ps) = length ps"
    by (simp add: filter_id_conv)
qed

lemma set_successes_by:
  "(w \<in> set (successes (filter (\<lambda>a. fst a \<le> d) (arrivals ps))))
   = (\<exists>j < length ps. \<exists>t \<le> d. ps ! j = Some (t, Fulfilled w))"
  by (auto simp: set_successes set_arrivals)

lemma set_failures_by:
  "((k, e) \<in> set (failures K (filter (\<lambda>a. fst a \<le> d) (arrivals ps))))
   = (\<exists>j < length ps. \<exists>t \<le> d. k = K ! j \<and> ps ! j = Some (t, Rejected e))"
  by (auto simp: set_failures set_arrivals)

lemma length_successes_filter:
  "length (successes as) = length (filter (\<lambda>a. \<exists>w. snd (snd a) = Fulfilled w) as)"
  by (induction as rule: successes.induct) auto

lemma length_successes_by:
  "length (successes (filter (\<lambda>a. fst a \<le> d) (arrivals ps)))
   = card {j. j < length ps \<and> (\<exists>t w. ps ! j = Some (t, Fulfilled w) \<and> t \<le> d)}"
proof -
  let ?sel = "filter (\<lambda>a. \<exists>w. snd (snd a) = Fulfilled w) (filter (\<lambda>a. fst a \<le> d) (arrivals ps))"
  have "distinct (map (\<lambda>a. fst (snd a)) ?sel)"
    by (intro distinct_map_filter distinct_arrivals)
  from distinct_card [OF this]
  have "length ?sel = card (set (map (\<lambda>a. fst (snd a)) ?sel))"
    by (simp only: length_map)
  also have "set (map (\<lambda>a. fst (snd a)) ?sel)
      = {j. j < length ps \<and> (\<exists>t w. ps ! j = Some (t, Fulfilled w) \<and> t \<le> d)}"
    by (auto simp: set_arrivals image_iff) (force simp: set_arrivals)
  finally show ?thesis by (simp add: length_successes_filter)
qed


lemma race_first_success_at:
  assumes "length ps = length K" and "distinct K"
    and "i0 < length ps" and "ps ! i0 = Some (t0, Fulfilled v0)"
    and "\<forall>j < length ps. \<forall>t w. ps ! j = Some (t, Fulfilled w) \<longrightarrow> t0 \<le> t"
  shows "waitForSuccess ps K g = Inr (Some
         (let d = t0 + timeoutDelay g;
              pre = filter (\<lambda>a. fst a \<le> d) (arrivals ps);
              all = (pre = arrivals ps \<and> length (arrivals ps) = length ps)
          in \<lparr>ret = \<lparr>results = successes pre, errors = failures K pre\<rparr>,
              timer = (if all then Some d else None),
              resolvedAt = Some (if all then fst (last (arrivals ps)) else d)\<rparr>))"
proof -
  have mem: "(t0, i0, Fulfilled v0) \<in> set (arrivals ps)"
    using assms(3,4) by (simp add: set_arrivals)
  then have "successes (arrivals ps) \<noteq> []"
    by (auto simp: successes_empty_iff)
  from race_with_success [OF assms(1,2) this, of g]
  obtain t1 i1 v1 where first: "(t1, i1, Fulfilled v1) \<in> set (arrivals ps)"
    and min: "\<forall>t i w. (t, i, Fulfilled w) \<in> set (arrivals ps) \<longrightarrow> t1 \<le> t"
    and run: "waitForSuccess ps K g = Inr (Some
         (let d = t1 + timeoutDelay g;
              pre = filter (\<lambda>a. fst a \<le> d) (arrivals ps);
              all = (pre = arrivals ps \<and> length (arrivals ps) = length ps)
          in \<lparr>ret = \<lparr>results = successes pre, errors = failures K pre\<rparr>,
              timer = (if all then Some d else None),
              resolvedAt = Some (if all then fst (last (arrivals ps)) else d)\<rparr>))"
    by blast
  have "t1 \<le> t0" using min mem by blast
  moreover have "t0 \<le> t1" using first assms(5) by (auto simp: set_arrivals)
  ultimately have "t1 = t0" by simp
  with run show ?thesis by simp
qed

lemma failures_empty_iff: "(failures K as = []) = (\<forall>t i e. (t, i, Rejected e) \<notin> set as)"
  by (induction K as rule: failures.induct) auto

lemma sort_key_same:
  "\<forall>x \<in> set xs. f x = (c :: nat) \<Longrightarrow> sort_key f xs = xs"
proof (induction xs)
  case Nil
  then show ?case by simp
next
  case (Cons x xs)
  then have "sort_key f xs = xs" by simp
  then have "sort_key f (x # xs) = insort_key f x xs" by simp
  also have "\<dots> = x # xs" using Cons.prems by (cases xs) auto
  finally show ?case .
qed

lemma settledFrom_same_time:
  "successes (settledFrom k (map (\<lambda>v. Some (t, Fulfilled v)) vs)) = vs
   \<and> (\<forall>a \<in> set (settledFrom k (map (\<lambda>v. Some (t, Fulfilled v)) vs)). fst a = t)"
  by (induction vs arbitrary: k) auto

lemma arrivals_same_time:
  "successes (arrivals (map (\<lambda>v. Some (t, Fulfilled v)) vs)) = vs"
proof -
  have "sort_key fst (settledFrom 0 (map (\<lambda>v. Some (t, Fulfilled v)) vs))
        = settledFrom 0 (map (\<lambda>v. Some (t, Fulfilled v)) vs)"
    using settledFrom_same_time [of 0 t vs] by (intro sort_key_same [of _ _ t]) simp
  then show ?thesis
    using settledFrom_same_time [of 0 t vs] by (simp add: arrivals_def)
qed

lemma resolved_results_prefix:
  assumes "length ps = length K" and "distinct K"
    and "waitForSuccess ps K g = Inr (Some s)"
  shows "\<exists>k. results (ret s) = successes (take k (arrivals ps))"
proof (cases "successes (arrivals ps) = []")
  case True
  from race_without_success [OF assms(1,2) True, of g] assms(3)
  have "results (ret s) = []" by (auto split: if_splits)
  then have "results (ret s) = successes (take 0 (arrivals ps))" by simp
  then show ?thesis by blast
next
  case False
  from race_with_success [OF assms(1,2) False, of g] assms(3)
  obtain t0 where "results (ret s) = successes (filter (\<lambda>a. fst a \<le> t0 + timeoutDelay g) (arrivals ps))"
    by (auto simp: Let_def)
  moreover have "filter (\<lambda>a. fst a \<le> t0 + timeoutDelay g) (arrivals ps)
      = take (length (takeWhile (\<lambda>a. fst a \<le> t0 + timeoutDelay g) (arrivals ps))) (arrivals ps)"
    using takeWhile_sorted_filter [OF sorted_arrivals, of "t0 + timeoutDelay g" ps]
      takeWhile_eq_take [of "\<lambda>a. fst a \<le> t0 + timeoutDelay g" "arrivals ps"]
    by simp
  ultimately have "results (ret s)
      = successes (take (length (takeWhile (\<lambda>a. fst a \<le> t0 + timeoutDelay g) (arrivals ps))) (arrivals ps))"
    by simp
  then show ?thesis by blast
qed

lemma all_succeed_in_time:
  assumes "length ps = length K" and "distinct K" and "ps \<noteq> []"
    and "\<forall>i < length ps. \<exists>t v. ps ! i = Some (t, Fulfilled v)"
    and "\<forall>i < length ps. \<forall>j < length ps. \<forall>t t' x x'.
           ps ! i = Some (t, x) \<and> ps ! j = Some (t', x') \<longrightarrow> t' \<le> t + timeoutDelay g"
  shows "\<exists>s. waitForSuccess ps K g = Inr (Some s)
     \<and> results (ret s) = successes (arrivals ps)
     \<and> length (results (ret s)) = length ps \<and> errors (ret s) = []"
proof -
  let ?es = "arrivals ps"
  have len: "length ?es = length ps"
    using assms(4) by (auto simp: length_arrivals_all)
  have nofail: "failures K ?es = []"
    using assms(4) by (auto simp: failures_empty_iff set_arrivals)
  then have cnt: "length (successes ?es) = length ps"
    using count_arrivals [of ?es K] len by simp
  with assms(3) have some: "successes ?es \<noteq> []" by auto
  from race_with_success [OF assms(1,2) some, of g]
  obtain t0 i0 v0 where first: "(t0, i0, Fulfilled v0) \<in> set ?es"
    and run: "waitForSuccess ps K g = Inr (Some
         (let d = t0 + timeoutDelay g;
              pre = filter (\<lambda>a. fst a \<le> d) ?es;
              all = (pre = ?es \<and> length ?es = length ps)
          in \<lparr>ret = \<lparr>results = successes pre, errors = failures K pre\<rparr>,
              timer = (if all then Some d else None),
              resolvedAt = Some (if all then fst (last ?es) else d)\<rparr>))"
    by blast
  from first have i0: "i0 < length ps" "ps ! i0 = Some (t0, Fulfilled v0)"
    by (simp_all add: set_arrivals)
  have "\<forall>j < length ps. \<exists>t x. ps ! j = Some (t, x) \<and> t \<le> t0 + timeoutDelay g"
  proof (intro allI impI)
    fix j assume j: "j < length ps"
    with assms(4) obtain t v where p: "ps ! j = Some (t, Fulfilled v)" by blast
    with assms(5) i0 j have "t \<le> t0 + timeoutDelay g" by blast
    with p show "\<exists>t x. ps ! j = Some (t, x) \<and> t \<le> t0 + timeoutDelay g" by blast
  qed
  then have all: "filter (\<lambda>a. fst a \<le> t0 + timeoutDelay g) ?es = ?es \<and> length ?es = length ps"
    by (simp add: all_settled_by)
  have "waitForSuccess ps K g = Inr (Some
          \<lparr>ret = \<lparr>results = successes ?es, errors = []\<rparr>,
           timer = Some (t0 + timeoutDelay g), resolvedAt = Some (fst (last ?es))\<rparr>)"
    using run all nofail by (simp add: Let_def)
  then show ?thesis using cnt by simp
qed

lemma retInTheEnd_eq:
  assumes "length ps = length K" and "distinct K"
  shows "retInTheEnd ps K g = \<lparr>results = successes (arrivals ps), errors = failures K (arrivals ps)\<rparr>"
proof (rule ret_eqI)
  show "results (retInTheEnd ps K g) = successes (arrivals ps)"
    by (simp add: retInTheEnd_def results_eventLoop newRace_def)
  have "distinct (map fst (errors (ret (newRace :: 'a race))) @ map fst (failures K (arrivals ps)))"
    using distinct_failures_arrivals [OF assms(2,1)] by (simp add: newRace_def)
  from errors_eventLoop [OF this]
  show "errors (retInTheEnd ps K g) = failures K (arrivals ps)"
    by (simp add: retInTheEnd_def newRace_def)
qed

lemma resolved_errors_settled:
  assumes "length ps = length K" and "distinct K"
    and "waitForSuccess ps K g = Inr (Some s)"
  shows "\<exists>T. resolvedAt s = Some T
      \<and> (\<forall>k e. (k, e) \<in> set (errors (ret s))
            \<longrightarrow> (\<exists>i < length ps. \<exists>t \<le> T. k = K ! i \<and> ps ! i = Some (t, Rejected e)))"
proof (cases "successes (arrivals ps) = []")
  case True
  let ?T = "fst (last (arrivals ps))"
  from race_without_success [OF assms(1,2) True, of g] assms(3)
  have s: "resolvedAt s = Some ?T" "errors (ret s) = failures K (arrivals ps)"
    by (auto split: if_splits)
  have "\<forall>k e. (k, e) \<in> set (errors (ret s))
            \<longrightarrow> (\<exists>i < length ps. \<exists>t \<le> ?T. k = K ! i \<and> ps ! i = Some (t, Rejected e))"
  proof (intro allI impI)
    fix k e assume "(k, e) \<in> set (errors (ret s))"
    then obtain t i where "(t, i, Rejected e) \<in> set (arrivals ps)" "k = K ! i"
      using s(2) by (auto simp: set_failures)
    then have i: "i < length ps" "ps ! i = Some (t, Rejected e)" "k = K ! i"
      by (simp_all add: set_arrivals)
    with arrival_le_last [OF i(1,2)]
    show "\<exists>i < length ps. \<exists>t \<le> ?T. k = K ! i \<and> ps ! i = Some (t, Rejected e)" by blast
  qed
  with s(1) show ?thesis by blast
next
  case False
  from race_with_success [OF assms(1,2) False, of g] assms(3)
  obtain t0 where s: "errors (ret s) = failures K (filter (\<lambda>a. fst a \<le> t0 + timeoutDelay g) (arrivals ps))"
      "resolvedAt s = Some (if filter (\<lambda>a. fst a \<le> t0 + timeoutDelay g) (arrivals ps) = arrivals ps
                               \<and> length (arrivals ps) = length ps
                            then fst (last (arrivals ps)) else t0 + timeoutDelay g)"
    by (auto simp: Let_def)
  let ?T = "if filter (\<lambda>a. fst a \<le> t0 + timeoutDelay g) (arrivals ps) = arrivals ps
               \<and> length (arrivals ps) = length ps
            then fst (last (arrivals ps)) else t0 + timeoutDelay g"
  have "\<forall>k e. (k, e) \<in> set (errors (ret s))
            \<longrightarrow> (\<exists>i < length ps. \<exists>t \<le> ?T. k = K ! i \<and> ps ! i = Some (t, Rejected e))"
  proof (intro allI impI)
    fix k e assume "(k, e) \<in> set (errors (ret s))"
    then obtain i t where i: "i < length ps" "t \<le> t0 + timeoutDelay g" "k = K ! i" "ps ! i = Some (t, Rejected e)"
      using s(1) by (auto simp: set_failures_by)
    have "t \<le> ?T" using i(2) arrival_le_last [OF i(1,4)] by simp
    with i show "\<exists>i < length ps. \<exists>t \<le> ?T. k = K ! i \<and> ps ! i = Some (t, Rejected e)" by blast
  qed
  with s(2) show ?thesis by blast
qed

lemma resolvedAt_settle_kept:
  "resolvedAt s \<noteq> None \<Longrightarrow> resolvedAt (settle K g n a s) = resolvedAt s"
  by (cases "(K, g, n, a, s)" rule: settle.cases)
     (auto simp: onFinally_def onThen_def setTimeout_def onCatch_def complete_def Let_def)

lemma resolvedAt_fireTimer_kept:
  "resolvedAt s \<noteq> None \<Longrightarrow> resolvedAt (fireTimer s) = resolvedAt s"
  by (auto simp: fireTimer_def complete_def split: option.splits)

lemma resolvedAt_eventLoop_kept:
  "resolvedAt s \<noteq> None \<Longrightarrow> resolvedAt (eventLoop K g n as s) = resolvedAt s"
proof (induction as arbitrary: s)
  case Nil
  then show ?case by (simp add: resolvedAt_fireTimer_kept)
next
  case (Cons a as)
  let ?s1 = "if timerDueBefore s (fst a) then fireTimer s else s"
  have s1: "resolvedAt ?s1 = resolvedAt s"
    using Cons.prems by (simp add: resolvedAt_fireTimer_kept)
  then have s2: "resolvedAt (settle K g n a ?s1) = resolvedAt s"
    using Cons.prems resolvedAt_settle_kept [of ?s1 K g n a] by simp
  then have "resolvedAt (settle K g n a ?s1) \<noteq> None" using Cons.prems by simp
  from Cons.IH [OF this] s2 show ?case by (simp del: settle.simps)
qed

lemma eventLoop_awaitResolved:
  "awaitResolved K g n as s0 = Some s \<Longrightarrow> resolvedAt (eventLoop K g n as s0) = resolvedAt s"
proof (induction as arbitrary: s0)
  case Nil
  then show ?case by (auto simp: Let_def split: if_splits)
next
  case (Cons a as)
  let ?s1 = "if timerDueBefore s0 (fst a) then fireTimer s0 else s0"
  let ?s2 = "settle K g n a ?s1"
  have loop: "eventLoop K g n (a # as) s0 = eventLoop K g n as ?s2" by simp
  show ?case
  proof (cases "resolvedAt ?s1 \<noteq> None")
    case True
    with Cons.prems have s: "s = ?s1" by (simp add: Let_def del: settle.simps)
    have "resolvedAt ?s2 = resolvedAt ?s1" using True by (rule resolvedAt_settle_kept)
    moreover from this True have "resolvedAt ?s2 \<noteq> None" by simp
    ultimately have "resolvedAt (eventLoop K g n as ?s2) = resolvedAt ?s1"
      using resolvedAt_eventLoop_kept [of ?s2 K g n as] by simp
    with s loop show ?thesis by simp
  next
    case s1: False
    show ?thesis
    proof (cases "resolvedAt ?s2 \<noteq> None")
      case True
      with s1 Cons.prems have s: "s = ?s2" by (simp add: Let_def del: settle.simps)
      from resolvedAt_eventLoop_kept [OF True, of K g n as] s loop show ?thesis by simp
    next
      case False
      with s1 Cons.prems have "awaitResolved K g n as ?s2 = Some s"
        by (simp add: Let_def del: settle.simps)
      from Cons.IH [OF this] loop show ?thesis by simp
    qed
  qed
qed

lemma resolution_final:
  assumes "length ps = length K" and "distinct K" and "waitForSuccess ps K g = Inr (Some s)"
  shows "resolvedAt (eventLoop K g (length ps) (arrivals ps) newRace) = resolvedAt s"
  using assms(3) by (simp add: waitForSuccess_valid [OF assms(1,2)] eventLoop_awaitResolved)

lemma timeoutDelay_in_range:
  "1 \<le> x \<Longrightarrow> x \<le> 2147483647 \<Longrightarrow> timeoutDelay (Num x) = nat \<lfloor>x\<rfloor>"
  by (simp add: timeoutDelay_def)

lemma timeoutDelay_out_of_range:
  "\<not> (\<exists>x. d = Num x \<and> 1 \<le> x \<and> x \<le> 2147483647) \<Longrightarrow> timeoutDelay d = 1"
  by (cases d) (auto simp: timeoutDelay_def)

lemmas race_eval =
  waitForSuccess_def checkKeys.simps indexOf_def arrivals_def newRace_def
  fireTimer_def timerDueBefore_def onFinally_def onThen_def setTimeout_def timeoutDelay_def
  onCatch_def complete_def Let_def

section \<open>Claims about the checks\<close>

text \<open>
  C10. When the number of promises differs from the number of error keys, the body of
  \<^verbatim>\<open>waitForSuccess\<close> throws \<^verbatim>\<open>Invalid errorKeys length\<close> as its first statement: no
  promise is created, no handler is attached, nothing is recorded. The result does not
  depend on how, or whether, the promises settle.
\<close>

theorem waitForSuccess_invalid_length:
  "length promises \<noteq> length errorKeys \<Longrightarrow>
   waitForSuccess promises errorKeys graceTime = Inl (Error ''Invalid errorKeys length'')"
  by (simp add: waitForSuccess_def)

theorem waitForSuccess_invalid_length_witness:
  "length [Some (0, Fulfilled ''A'') :: string promise] \<noteq> length [''a'', ''b'']
   \<and> waitForSuccess [Some (0, Fulfilled ''A'')] [''a'', ''b''] (Num 10)
       = Inl (Error ''Invalid errorKeys length'')"
  using waitForSuccess_invalid_length [of "[Some (0, Fulfilled ''A'')]" "[''a'', ''b'']" "Num 10"]
  by simp

text \<open>
  C8. For a list of probes with one key each, when a key occurs twice
  \<^verbatim>\<open>waitForSuccess\<close> throws the duplicate-key error before any handler is attached,
  whatever the promises do. A failure of a probe is not thrown: it becomes an entry of
  \<open>errors\<close> in a result \<open>Inr\<close>.
\<close>

theorem waitForSuccess_duplicate_keys:
  "length promises = length errorKeys \<Longrightarrow> \<not> distinct errorKeys \<Longrightarrow>
   waitForSuccess promises errorKeys graceTime
     = Inl (Error ''waitForSuccess: duplicate relay URL keys, aborting'')"
  by (simp add: waitForSuccess_def checkKeys_duplicate)

theorem waitForSuccess_duplicate_keys_witness:
  "length [Some (0, Fulfilled ''A''), None :: string promise] = length [''a'', ''a'']
   \<and> \<not> distinct [''a'', ''a'']
   \<and> waitForSuccess [Some (0, Fulfilled ''A''), None] [''a'', ''a''] (Num 10)
       = Inl (Error ''waitForSuccess: duplicate relay URL keys, aborting'')"
  using waitForSuccess_duplicate_keys [of "[Some (0, Fulfilled ''A''), None]" "[''a'', ''a'']" "Num 10"]
  by simp

text \<open>
  C4. With no promise and no key, both checks pass, the executor attaches no handler,
  and nothing ever calls \<^verbatim>\<open>complete\<close>: the returned promise stays pending. The call does
  not fail with a configuration error.
\<close>

theorem waitForSuccess_empty_pending:
  "waitForSuccess [] [] graceTime = Inr None"
  by (simp add: waitForSuccess_def checkKeys.simps arrivals_def newRace_def fireTimer_def)

section \<open>Claims about the race\<close>

text \<open>
  C5. When every one of the \<open>N \<ge> 1\<close> probes fails, the promise of \<^verbatim>\<open>waitForSuccess\<close>
  is resolved, never rejected, and only when the last probe settles: at a time \<open>T\<close>
  that is the settling time of a probe and not before the settling time of any. The
  value has no result and \<open>N\<close> errors, one under each key: the error of that key's
  probe. No timer is involved, whatever the grace time.
\<close>

theorem waitForSuccess_all_fail:
  assumes "length promises = length errorKeys" and "distinct errorKeys" and "promises \<noteq> []"
    and "\<forall>i < length promises. \<exists>t e. promises ! i = Some (t, Rejected e)"
  shows "\<exists>s T. waitForSuccess promises errorKeys graceTime = Inr (Some s)
      \<and> results (ret s) = [] \<and> length (errors (ret s)) = length promises
      \<and> resolvedAt s = Some T
      \<and> (\<forall>i < length promises. \<exists>t e. promises ! i = Some (t, Rejected e) \<and> t \<le> T
            \<and> map_of (errors (ret s)) (errorKeys ! i) = Some e)
      \<and> (\<exists>i < length promises. \<exists>e. promises ! i = Some (T, Rejected e))"
proof -
  let ?es = "arrivals promises"
  let ?T = "fst (last ?es)"
  let ?s = "\<lparr>ret = \<lparr>results = [], errors = failures errorKeys ?es\<rparr>,
             timer = None, resolvedAt = Some ?T\<rparr> :: 'a race"
  have none: "successes ?es = []"
    using assms(4) by (auto simp: successes_empty_iff set_arrivals)
  have len: "length ?es = length promises"
    using assms(4) by (auto simp: length_arrivals_all)
  with assms(3) have ne: "?es \<noteq> []" by auto
  have run: "waitForSuccess promises errorKeys graceTime = Inr (Some ?s)"
    using race_without_success [OF assms(1,2) none, of graceTime] ne len by simp
  have cnt: "length (failures errorKeys ?es) = length promises"
    using count_arrivals [of ?es errorKeys] none len by simp
  have each: "\<forall>i < length promises. \<exists>t e. promises ! i = Some (t, Rejected e) \<and> t \<le> ?T
            \<and> map_of (failures errorKeys ?es) (errorKeys ! i) = Some e"
  proof (intro allI impI)
    fix i assume i: "i < length promises"
    with assms(4) obtain t e where p: "promises ! i = Some (t, Rejected e)" by blast
    have "(errorKeys ! i, e) \<in> set (failures errorKeys ?es)"
      using i p by (auto simp: set_failures set_arrivals)
    then have "map_of (failures errorKeys ?es) (errorKeys ! i) = Some e"
      using distinct_failures_arrivals [OF assms(2,1)] by simp
    with p arrival_le_last [OF i p]
    show "\<exists>t e. promises ! i = Some (t, Rejected e) \<and> t \<le> ?T
            \<and> map_of (failures errorKeys ?es) (errorKeys ! i) = Some e" by blast
  qed
  have last: "\<exists>i < length promises. \<exists>e. promises ! i = Some (?T, Rejected e)"
  proof -
    obtain j x where j: "j < length promises" "promises ! j = Some (?T, x)"
      using last_arrival [OF ne] by blast
    with assms(4) obtain e where "x = Rejected e" by fastforce
    with j show ?thesis by blast
  qed
  have "waitForSuccess promises errorKeys graceTime = Inr (Some ?s)
      \<and> results (ret ?s) = [] \<and> length (errors (ret ?s)) = length promises
      \<and> resolvedAt ?s = Some ?T
      \<and> (\<forall>i < length promises. \<exists>t e. promises ! i = Some (t, Rejected e) \<and> t \<le> ?T
            \<and> map_of (errors (ret ?s)) (errorKeys ! i) = Some e)
      \<and> (\<exists>i < length promises. \<exists>e. promises ! i = Some (?T, Rejected e))"
    using run cnt each last by simp
  then show ?thesis by blast
qed

theorem waitForSuccess_all_fail_witness:
  "waitForSuccess [Some (7, Rejected (Error ''x'')), Some (5, Rejected (Error ''y''))] [''a'', ''b''] (Num 10)
     = Inr (Some \<lparr>ret = \<lparr>results = ([] :: string list),
                            errors = [(''b'', Error ''y''), (''a'', Error ''x'')]\<rparr>,
                  timer = None, resolvedAt = Some 7\<rparr>)
   \<and> (\<exists>s T. waitForSuccess [Some (7, Rejected (Error ''x'')), Some (5, Rejected (Error ''y''))]
                [''a'', ''b''] (Num 10) = Inr (Some (s :: string race))
        \<and> results (ret s) = [] \<and> length (errors (ret s)) = 2 \<and> resolvedAt s = Some T)"
proof -
  let ?ps = "[Some (7, Rejected (Error ''x'')), Some (5, Rejected (Error ''y''))] :: string promise list"
  have h: "length ?ps = length [''a'', ''b'']" "distinct [''a'', ''b'']" "?ps \<noteq> []"
    "\<forall>i < length ?ps. \<exists>t e. ?ps ! i = Some (t, Rejected e)"
    by (auto simp: less_Suc_eq)
  have "waitForSuccess ?ps [''a'', ''b''] (Num 10)
     = Inr (Some \<lparr>ret = \<lparr>results = [], errors = [(''b'', Error ''y''), (''a'', Error ''x'')]\<rparr>,
                  timer = None, resolvedAt = Some 7\<rparr>)"
    by (simp add: waitForSuccess_def checkKeys.simps indexOf_def arrivals_def newRace_def
       fireTimer_def timerDueBefore_def onFinally_def onThen_def setTimeout_def timeoutDelay_def onCatch_def complete_def Let_def)
  moreover have "\<exists>s T. waitForSuccess ?ps [''a'', ''b''] (Num 10) = Inr (Some s)
        \<and> results (ret s) = [] \<and> length (errors (ret s)) = 2 \<and> resolvedAt s = Some T"
    using waitForSuccess_all_fail [OF h, of "Num 10"] by auto
  ultimately show ?thesis by blast
qed

text \<open>
  C3, as amended. In a race whose first success comes at time \<open>t0\<close>, a one-shot timer
  is set at \<open>t0\<close> for the delay \<^verbatim>\<open>setTimeout\<close> makes of the grace time: the grace time
  itself when it is a whole number of milliseconds from 1 to 2147483647 (its integer
  part when it has a fraction), and 1 millisecond for every other grace time. The
  promise is resolved at the earlier of two moments: the timer firing, or the last
  probe settling when every probe has settled by then (the timer is then still
  pending). At that moment the value holds the result of every probe that succeeded by
  the time the timer is due, and of no other probe: with a grace time in that range a
  success at \<open>t0 + graceTime / 2\<close> is in it and one at \<open>t0 + 2 * graceTime\<close> is not. The
  handlers of a later success still run, without error and without resolving the
  promise again: the moment of resolution stays what it was, and the result is pushed
  to the same sequence, the one the caller holds, which in the end has the result of
  every probe that succeeded.
\<close>

theorem waitForSuccess_grace_period:
  assumes "length promises = length errorKeys" and "distinct errorKeys"
    and "i0 < length promises" and "promises ! i0 = Some (t0, Fulfilled v0)"
    and "\<forall>j < length promises. \<forall>t w. promises ! j = Some (t, Fulfilled w) \<longrightarrow> t0 \<le> t"
  shows "\<exists>s. waitForSuccess promises errorKeys graceTime = Inr (Some s)
    \<and> ((\<forall>j < length promises. \<exists>t x. promises ! j = Some (t, x)
            \<and> t \<le> t0 + timeoutDelay graceTime)
         \<longrightarrow> timer s = Some (t0 + timeoutDelay graceTime)
           \<and> (\<exists>T \<le> t0 + timeoutDelay graceTime. resolvedAt s = Some T
                \<and> (\<exists>j < length promises. \<exists>x. promises ! j = Some (T, x))
                \<and> (\<forall>j < length promises. \<forall>t x. promises ! j = Some (t, x) \<longrightarrow> t \<le> T)))
    \<and> (\<not> (\<forall>j < length promises. \<exists>t x. promises ! j = Some (t, x)
            \<and> t \<le> t0 + timeoutDelay graceTime)
         \<longrightarrow> timer s = None \<and> resolvedAt s = Some (t0 + timeoutDelay graceTime))
    \<and> (\<forall>j < length promises. \<forall>t w.
          promises ! j = Some (t, Fulfilled w) \<and> t \<le> t0 + timeoutDelay graceTime
          \<longrightarrow> w \<in> set (results (ret s)))
    \<and> (\<forall>w \<in> set (results (ret s)).
          \<exists>j < length promises. \<exists>t \<le> t0 + timeoutDelay graceTime.
            promises ! j = Some (t, Fulfilled w))
    \<and> length (results (ret s))
        = card {j. j < length promises
                  \<and> (\<exists>t w. promises ! j = Some (t, Fulfilled w)
                        \<and> t \<le> t0 + timeoutDelay graceTime)}
    \<and> resolvedAt (eventLoop errorKeys graceTime (length promises) (arrivals promises) newRace)
        = resolvedAt s
    \<and> results (retInTheEnd promises errorKeys graceTime) = successes (arrivals promises)
    \<and> (\<forall>j < length promises. \<forall>t w. promises ! j = Some (t, Fulfilled w)
          \<longrightarrow> w \<in> set (results (retInTheEnd promises errorKeys graceTime)))
    \<and> (\<forall>x. graceTime = Num x \<and> 1 \<le> x \<and> x \<le> 2147483647
          \<longrightarrow> timeoutDelay graceTime = nat \<lfloor>x\<rfloor>)
    \<and> (\<not> (\<exists>x. graceTime = Num x \<and> 1 \<le> x \<and> x \<le> 2147483647)
          \<longrightarrow> timeoutDelay graceTime = 1)"
proof -
  let ?d = "t0 + timeoutDelay graceTime"
  let ?es = "arrivals promises"
  let ?pre = "filter (\<lambda>a. fst a \<le> ?d) ?es"
  let ?all = "\<forall>j < length promises. \<exists>t x. promises ! j = Some (t, x) \<and> t \<le> ?d"
  let ?s = "\<lparr>ret = \<lparr>results = successes ?pre, errors = failures errorKeys ?pre\<rparr>,
             timer = (if ?all then Some ?d else None),
             resolvedAt = Some (if ?all then fst (last ?es) else ?d)\<rparr> :: 'a race"
  have run: "waitForSuccess promises errorKeys graceTime = Inr (Some ?s)"
    using race_first_success_at [OF assms, of graceTime]
    by (simp add: Let_def all_settled_by)
  have ne: "?es \<noteq> []"
    using assms(3,4) set_arrivals [of t0 i0 "Fulfilled v0" promises] by auto
  have settled: "?all \<longrightarrow> timer ?s = Some ?d
           \<and> (\<exists>T \<le> ?d. resolvedAt ?s = Some T
                \<and> (\<exists>j < length promises. \<exists>x. promises ! j = Some (T, x))
                \<and> (\<forall>j < length promises. \<forall>t x. promises ! j = Some (t, x) \<longrightarrow> t \<le> T))"
  proof
    assume all: ?all
    obtain j x where j: "j < length promises" "promises ! j = Some (fst (last ?es), x)"
      using last_arrival [OF ne] by blast
    with all have le: "fst (last ?es) \<le> ?d" by fastforce
    have "\<forall>j < length promises. \<forall>t x. promises ! j = Some (t, x) \<longrightarrow> t \<le> fst (last ?es)"
      using arrival_le_last by blast
    with all j le show "timer ?s = Some ?d
           \<and> (\<exists>T \<le> ?d. resolvedAt ?s = Some T
                \<and> (\<exists>j < length promises. \<exists>x. promises ! j = Some (T, x))
                \<and> (\<forall>j < length promises. \<forall>t x. promises ! j = Some (t, x) \<longrightarrow> t \<le> T))"
      by auto
  qed
  have fired: "\<not> ?all \<longrightarrow> timer ?s = None \<and> resolvedAt ?s = Some ?d"
    by simp
  have incl: "\<forall>j < length promises. \<forall>t w.
          promises ! j = Some (t, Fulfilled w) \<and> t \<le> ?d \<longrightarrow> w \<in> set (results (ret ?s))"
    by (auto simp: set_successes_by)
  have excl: "\<forall>w \<in> set (results (ret ?s)).
          \<exists>j < length promises. \<exists>t \<le> ?d. promises ! j = Some (t, Fulfilled w)"
    by (simp add: set_successes_by)
  have cnt: "length (results (ret ?s))
        = card {j. j < length promises \<and> (\<exists>t w. promises ! j = Some (t, Fulfilled w) \<and> t \<le> ?d)}"
    by (simp add: length_successes_by)
  have final: "resolvedAt (eventLoop errorKeys graceTime (length promises) ?es newRace)
        = resolvedAt ?s"
    by (rule resolution_final [OF assms(1,2) run])
  have pushed: "results (retInTheEnd promises errorKeys graceTime) = successes ?es"
    by (simp add: retInTheEnd_eq [OF assms(1,2)])
  have every: "\<forall>j < length promises. \<forall>t w. promises ! j = Some (t, Fulfilled w)
          \<longrightarrow> w \<in> set (results (retInTheEnd promises errorKeys graceTime))"
    unfolding pushed by (auto simp: set_successes set_arrivals)
  have range: "\<forall>x. graceTime = Num x \<and> 1 \<le> x \<and> x \<le> 2147483647
          \<longrightarrow> timeoutDelay graceTime = nat \<lfloor>x\<rfloor>"
    by (auto simp: timeoutDelay_in_range)
  have other: "\<not> (\<exists>x. graceTime = Num x \<and> 1 \<le> x \<and> x \<le> 2147483647)
          \<longrightarrow> timeoutDelay graceTime = 1"
    using timeoutDelay_out_of_range [of graceTime] by blast
  show ?thesis
    using run settled fired incl excl cnt final pushed every range other by blast
qed

theorem waitForSuccess_grace_period_witness:
  "waitForSuccess [Some (0, Fulfilled ''A''), Some (5, Fulfilled ''B''), Some (20, Fulfilled ''C'')]
       [''a'', ''b'', ''c''] (Num 10)
     = Inr (Some \<lparr>ret = \<lparr>results = [''A'', ''B''], errors = []\<rparr>, timer = None, resolvedAt = Some 10\<rparr>)
   \<and> (\<exists>s. waitForSuccess [Some (0, Fulfilled ''A''), Some (5, Fulfilled ''B''), Some (20, Fulfilled ''C'')]
              [''a'', ''b'', ''c''] (Num 10) = Inr (Some s)
        \<and> timer s = None \<and> resolvedAt s = Some 10
        \<and> ''B'' \<in> set (results (ret s)) \<and> ''C'' \<notin> set (results (ret s))
        \<and> resolvedAt (eventLoop [''a'', ''b'', ''c''] (Num 10) 3
             (arrivals [Some (0, Fulfilled ''A''), Some (5, Fulfilled ''B''), Some (20, Fulfilled ''C'')])
             newRace) = Some 10)
   \<and> results (retInTheEnd [Some (0, Fulfilled ''A''), Some (5, Fulfilled ''B''),
                            Some (20, Fulfilled ''C'')] [''a'', ''b'', ''c''] (Num 10))
     = [''A'', ''B'', ''C'']
   \<and> timeoutDelay (Num 10) = 10"
proof -
  let ?ps = "[Some (0, Fulfilled ''A''), Some (5, Fulfilled ''B''), Some (20, Fulfilled ''C'')]
             :: string promise list"
  let ?K = "[''a'', ''b'', ''c'']"
  have d: "timeoutDelay (Num 10) = 10" by (simp add: timeoutDelay_def)
  have h: "length ?ps = length ?K" "distinct ?K" "0 < length ?ps" "?ps ! 0 = Some (0, Fulfilled ''A'')"
    "\<forall>j < length ?ps. \<forall>t w. ?ps ! j = Some (t, Fulfilled w) \<longrightarrow> 0 \<le> t"
    by simp_all
  have late: "\<not> (\<forall>j < length ?ps. \<exists>t x. ?ps ! j = Some (t, x) \<and> t \<le> 0 + 10)"
    by (auto intro: exI [of _ 2])
  from waitForSuccess_grace_period [OF h, of "Num 10", unfolded d]
  obtain s where s: "waitForSuccess ?ps ?K (Num 10) = Inr (Some s)"
    and fired: "\<not> (\<forall>j < length ?ps. \<exists>t x. ?ps ! j = Some (t, x) \<and> t \<le> 0 + 10)
         \<longrightarrow> timer s = None \<and> resolvedAt s = Some (0 + 10)"
    and incl: "\<forall>j < length ?ps. \<forall>t w.
          ?ps ! j = Some (t, Fulfilled w) \<and> t \<le> 0 + 10 \<longrightarrow> w \<in> set (results (ret s))"
    and excl: "\<forall>w \<in> set (results (ret s)).
          \<exists>j < length ?ps. \<exists>t \<le> 0 + 10. ?ps ! j = Some (t, Fulfilled w)"
    and final: "resolvedAt (eventLoop ?K (Num 10) (length ?ps) (arrivals ?ps) newRace) = resolvedAt s"
    by blast
  have t: "timer s = None \<and> resolvedAt s = Some 10" using fired late by simp
  have b: "''B'' \<in> set (results (ret s))"
    using incl [rule_format, of 1 5 "''B''"] by simp
  have c: "''C'' \<notin> set (results (ret s))"
  proof
    assume "''C'' \<in> set (results (ret s))"
    with excl obtain j t where "j < length ?ps" "t \<le> 0 + 10" "?ps ! j = Some (t, Fulfilled ''C'')"
      by blast
    then show False by (auto simp: less_Suc_eq)
  qed
  have len: "length ?ps = 3" by simp
  from t have r10: "resolvedAt s = Some 10" by simp
  have f: "resolvedAt (eventLoop ?K (Num 10) 3 (arrivals ?ps) newRace) = Some 10"
    using final by (simp only: len r10)
  have "waitForSuccess ?ps ?K (Num 10)
     = Inr (Some \<lparr>ret = \<lparr>results = [''A'', ''B''], errors = []\<rparr>, timer = None, resolvedAt = Some 10\<rparr>)"
    by (simp add: race_eval)
  moreover have "results (retInTheEnd ?ps ?K (Num 10)) = [''A'', ''B'', ''C'']"
    by (simp add: race_eval retInTheEnd_def)
  ultimately show ?thesis using s t b c f d by blast
qed

text \<open>
  As stated, for every race, the claim fails. With a grace time of 2147483648 ms the
  timer is set for 1 ms: a success at \<open>t0 + graceTime / 2\<close> comes after the promise has
  been resolved and is not in the value at that moment. And a success at
  \<open>t0 + 2 * graceTime\<close> (here with a grace time of 10 ms) is missing only at the moment
  of resolution: it is pushed afterwards to the very sequence the caller received.
\<close>

theorem waitForSuccess_grace_period_counterexample:
  "waitForSuccess [Some (0, Fulfilled ''A''), Some (1073741824, Fulfilled ''B'')] [''a'', ''b'']
       (Num 2147483648)
     = Inr (Some \<lparr>ret = \<lparr>results = [''A''], errors = []\<rparr>, timer = None, resolvedAt = Some 1\<rparr>)
   \<and> (1073741824 :: nat) = 0 + 2147483648 div 2
   \<and> ''B'' \<notin> set [''A'']
   \<and> waitForSuccess [Some (0, Fulfilled ''A''), Some (20, Fulfilled ''B'')] [''a'', ''b''] (Num 10)
     = Inr (Some \<lparr>ret = \<lparr>results = [''A''], errors = []\<rparr>, timer = None, resolvedAt = Some 10\<rparr>)
   \<and> results (retInTheEnd [Some (0, Fulfilled ''A''), Some (20, Fulfilled ''B'')] [''a'', ''b'']
        (Num 10)) = [''A'', ''B'']"
  by (simp add: race_eval retInTheEnd_def)

text \<open>
  C7, as amended. The results of the value resolved are the successes among the first
  arrivals, in the order of arrival, whatever the race. When all \<open>N \<ge> 1\<close> probes succeed
  and none later than the delay of the grace timer after another (the last within that
  delay of the first; the delay is the grace time when that is a whole number of
  milliseconds from 1 to 2147483647, and 1 ms for a grace time outside that range),
  the value holds all \<open>N\<close> results in the order of arrival and no error; for probes
  that all succeed at one time, this is the order of the list of probes. As stated,
  for every race in which all probes succeed, the claim fails: a success that comes
  after the timer has fired is not in the value resolved.
\<close>

theorem waitForSuccess_completion_order:
  assumes "length promises = length errorKeys" and "distinct errorKeys"
  shows "(\<forall>s. waitForSuccess promises errorKeys graceTime = Inr (Some s)
            \<longrightarrow> (\<exists>k. results (ret s) = successes (take k (arrivals promises))))
     \<and> (promises \<noteq> []
         \<and> (\<forall>i < length promises. \<exists>t v. promises ! i = Some (t, Fulfilled v))
         \<and> (\<forall>i < length promises. \<forall>j < length promises. \<forall>t t' x x'.
               promises ! i = Some (t, x) \<and> promises ! j = Some (t', x')
               \<longrightarrow> t' \<le> t + timeoutDelay graceTime)
         \<longrightarrow> (\<exists>s. waitForSuccess promises errorKeys graceTime = Inr (Some s)
               \<and> results (ret s) = successes (arrivals promises)
               \<and> length (results (ret s)) = length promises \<and> errors (ret s) = []))
     \<and> (\<forall>t vs. promises = map (\<lambda>v. Some (t, Fulfilled v)) vs
            \<longrightarrow> successes (arrivals promises) = vs)"
  using resolved_results_prefix [OF assms] all_succeed_in_time [OF assms, of graceTime]
    arrivals_same_time
  by blast

theorem waitForSuccess_completion_order_witness:
  "waitForSuccess [Some (0, Fulfilled ''A''), Some (0, Fulfilled ''B'')] [''a'', ''b''] (Num 10)
     = Inr (Some \<lparr>ret = \<lparr>results = [''A'', ''B''], errors = []\<rparr>,
                  timer = Some 10, resolvedAt = Some 0\<rparr>)
   \<and> (\<exists>s. waitForSuccess [Some (0, Fulfilled ''A''), Some (0, Fulfilled ''B'')] [''a'', ''b''] (Num 10)
              = Inr (Some s)
        \<and> results (ret s) = [''A'', ''B''] \<and> length (results (ret s)) = 2 \<and> errors (ret s) = [])"
proof -
  let ?ps = "[Some (0, Fulfilled ''A''), Some (0, Fulfilled ''B'')] :: string promise list"
  let ?K = "[''a'', ''b'']"
  have h: "length ?ps = length ?K" "distinct ?K" by simp_all
  have all: "?ps \<noteq> [] \<and> (\<forall>i < length ?ps. \<exists>t v. ?ps ! i = Some (t, Fulfilled v))
         \<and> (\<forall>i < length ?ps. \<forall>j < length ?ps. \<forall>t t' x x'.
               ?ps ! i = Some (t, x) \<and> ?ps ! j = Some (t', x') \<longrightarrow> t' \<le> t + timeoutDelay (Num 10))"
    by (auto simp: less_Suc_eq)
  have same: "?ps = map (\<lambda>v. Some (0, Fulfilled v)) [''A'', ''B'']" by simp
  note order = waitForSuccess_completion_order [OF h, of "Num 10"]
  from order [THEN conjunct2, THEN conjunct1] all
  obtain s where s: "waitForSuccess ?ps ?K (Num 10) = Inr (Some s)"
      "results (ret s) = successes (arrivals ?ps)" "length (results (ret s)) = length ?ps"
      "errors (ret s) = []"
    by blast
  have "successes (arrivals ?ps) = [''A'', ''B'']"
    by (rule order [THEN conjunct2, THEN conjunct2, rule_format, OF same])
  with s have "waitForSuccess ?ps ?K (Num 10) = Inr (Some s)
        \<and> results (ret s) = [''A'', ''B''] \<and> length (results (ret s)) = 2 \<and> errors (ret s) = []"
    by simp
  then have "\<exists>s. waitForSuccess ?ps ?K (Num 10) = Inr (Some s)
        \<and> results (ret s) = [''A'', ''B''] \<and> length (results (ret s)) = 2 \<and> errors (ret s) = []"
    by (rule exI)
  moreover have "waitForSuccess ?ps ?K (Num 10)
     = Inr (Some \<lparr>ret = \<lparr>results = [''A'', ''B''], errors = []\<rparr>,
                  timer = Some 10, resolvedAt = Some 0\<rparr>)"
    by (simp add: race_eval)
  ultimately show ?thesis by blast
qed

text \<open>
  Two probes that both succeed, the second after the timer has fired: the value resolved
  holds one result, not two.
\<close>

theorem waitForSuccess_late_success_counterexample:
  "waitForSuccess [Some (0, Fulfilled ''A''), Some (20, Fulfilled ''B'')] [''a'', ''b''] (Num 10)
     = Inr (Some \<lparr>ret = \<lparr>results = [''A''], errors = []\<rparr>, timer = None, resolvedAt = Some 10\<rparr>)
   \<and> length [''A''] \<noteq> length [Some (0, Fulfilled ''A''), Some (20, Fulfilled ''B'')]"
  by (simp add: race_eval)

text \<open>
  C6, as amended. Once every probe has settled, the object \<^verbatim>\<open>ret\<close> holds as many results
  and errors together as there are probes. At the moment the promise is resolved, its
  \<open>errors\<close> hold entries only for probes that had failed by then. The object is the one
  the caller received, and a probe that fails later, also after the timer has fired, is
  still entered in it: in the end every probe that failed has its entry, and a caller
  that reads the mapping then sees it. As stated, the claim fails in its last part: a
  probe that is outstanding when the timer fires does contribute an entry later.
\<close>

theorem waitForSuccess_errors_mapping:
  assumes "length promises = length errorKeys" and "distinct errorKeys"
  shows "((\<forall>i < length promises. promises ! i \<noteq> None)
           \<longrightarrow> length (results (retInTheEnd promises errorKeys graceTime))
               + length (errors (retInTheEnd promises errorKeys graceTime)) = length promises)
     \<and> (\<forall>s. waitForSuccess promises errorKeys graceTime = Inr (Some s)
           \<longrightarrow> (\<exists>T. resolvedAt s = Some T
                 \<and> (\<forall>k e. (k, e) \<in> set (errors (ret s))
                       \<longrightarrow> (\<exists>i < length promises. \<exists>t \<le> T.
                              k = errorKeys ! i \<and> promises ! i = Some (t, Rejected e)))))
     \<and> (\<forall>i < length promises. \<forall>t e. promises ! i = Some (t, Rejected e)
           \<longrightarrow> (errorKeys ! i, e) \<in> set (errors (retInTheEnd promises errorKeys graceTime)))"
proof -
  have "(\<forall>i < length promises. promises ! i \<noteq> None)
           \<longrightarrow> length (results (retInTheEnd promises errorKeys graceTime))
               + length (errors (retInTheEnd promises errorKeys graceTime)) = length promises"
    using count_arrivals [of "arrivals promises" errorKeys]
    by (simp add: retInTheEnd_eq [OF assms] length_arrivals_all)
  moreover have "\<forall>i < length promises. \<forall>t e. promises ! i = Some (t, Rejected e)
           \<longrightarrow> (errorKeys ! i, e) \<in> set (errors (retInTheEnd promises errorKeys graceTime))"
    by (auto simp: retInTheEnd_eq [OF assms] set_failures set_arrivals)
  ultimately show ?thesis
    using resolved_errors_settled [OF assms, of graceTime] by blast
qed

theorem waitForSuccess_errors_mapping_witness:
  "waitForSuccess [Some (0, Fulfilled ''A''), Some (5, Rejected (Error ''early'')),
                   Some (20, Rejected (Error ''late''))] [''a'', ''b'', ''c''] (Num 10)
     = Inr (Some \<lparr>ret = \<lparr>results = [''A''], errors = [(''b'', Error ''early'')]\<rparr>,
                  timer = None, resolvedAt = Some 10\<rparr>)
   \<and> retInTheEnd [Some (0, Fulfilled ''A''), Some (5, Rejected (Error ''early'')),
                   Some (20, Rejected (Error ''late''))] [''a'', ''b'', ''c''] (Num 10)
     = \<lparr>results = [''A''], errors = [(''b'', Error ''early''), (''c'', Error ''late'')]\<rparr>
   \<and> length (results (retInTheEnd [Some (0, Fulfilled ''A''), Some (5, Rejected (Error ''early'')),
                   Some (20, Rejected (Error ''late''))] [''a'', ''b'', ''c''] (Num 10)))
     + length (errors (retInTheEnd [Some (0, Fulfilled ''A''), Some (5, Rejected (Error ''early'')),
                   Some (20, Rejected (Error ''late''))] [''a'', ''b'', ''c''] (Num 10))) = 3
   \<and> (''c'', Error ''late'') \<in> set (errors (retInTheEnd [Some (0, Fulfilled ''A''),
                   Some (5, Rejected (Error ''early'')),
                   Some (20, Rejected (Error ''late''))] [''a'', ''b'', ''c''] (Num 10)))"
proof -
  let ?ps = "[Some (0, Fulfilled ''A''), Some (5, Rejected (Error ''early'')),
              Some (20, Rejected (Error ''late''))] :: string promise list"
  let ?K = "[''a'', ''b'', ''c'']"
  have h: "length ?ps = length ?K" "distinct ?K" by simp_all
  have all: "\<forall>i < length ?ps. ?ps ! i \<noteq> None" by (auto simp: less_Suc_eq)
  from waitForSuccess_errors_mapping [OF h, of "Num 10"] all
  have "length (results (retInTheEnd ?ps ?K (Num 10))) + length (errors (retInTheEnd ?ps ?K (Num 10))) = 3"
    and "\<forall>i < length ?ps. \<forall>t e. ?ps ! i = Some (t, Rejected e)
           \<longrightarrow> (?K ! i, e) \<in> set (errors (retInTheEnd ?ps ?K (Num 10)))"
    by simp_all
  then have "length (results (retInTheEnd ?ps ?K (Num 10))) + length (errors (retInTheEnd ?ps ?K (Num 10))) = 3"
    and "(''c'', Error ''late'') \<in> set (errors (retInTheEnd ?ps ?K (Num 10)))"
    by (simp, fastforce)
  moreover have "waitForSuccess ?ps ?K (Num 10)
     = Inr (Some \<lparr>ret = \<lparr>results = [''A''], errors = [(''b'', Error ''early'')]\<rparr>,
                  timer = None, resolvedAt = Some 10\<rparr>)"
    by (simp add: race_eval retInTheEnd_def)
  moreover have "retInTheEnd ?ps ?K (Num 10)
     = \<lparr>results = [''A''], errors = [(''b'', Error ''early''), (''c'', Error ''late'')]\<rparr>"
    by (simp add: race_eval retInTheEnd_def)
  ultimately show ?thesis by blast
qed

text \<open>
  A probe that fails after the timer has fired: no entry at the resolution, an entry in
  the same object in the end.
\<close>

theorem waitForSuccess_late_failure_counterexample:
  "waitForSuccess [Some (0, Fulfilled ''A''), Some (20, Rejected (Error ''late''))] [''a'', ''b''] (Num 10)
     = Inr (Some \<lparr>ret = \<lparr>results = [''A''], errors = []\<rparr>, timer = None, resolvedAt = Some 10\<rparr>)
   \<and> retInTheEnd [Some (0, Fulfilled ''A''), Some (20, Rejected (Error ''late''))] [''a'', ''b''] (Num 10)
     = \<lparr>results = [''A''], errors = [(''b'', Error ''late'')]\<rparr>"
  by (simp add: race_eval retInTheEnd_def)

section \<open>Claims about the price oracle fetcher\<close>

lemmas decimal_eval =
  decimalValue_def isRadixDigit_def digitValue_def digitsValue_def Let_def

text \<open>
  C9. With an oracle endpoint configured: when the path expression extracts from the
  response a well-formed positive number, \<^verbatim>\<open>getGasPrice\<close> returns that number times
  \<open>10^9\<close>; when the network call failed, when the body is not structured data, when the
  path does not resolve and when the value extracted is not numeric, it returns the
  value of the fallback source and logs that cause at error severity. In all these cases
  the caller gets a value, not an exception.
\<close>

theorem getGasPrice_oracle_or_fallback:
  assumes "oracleEndpoint \<noteq> []"
  shows "(\<forall>t v r. getJsonElement t pathExpression = Some v \<and> numericValue v = Some r \<and> 0 < r
            \<longrightarrow> getGasPrice oracleEndpoint (Parsed t) pathExpression fallbackSource
                = (r * 10 ^ 9, []))
     \<and> (\<forall>c. getGasPrice oracleEndpoint (NetworkFailed c) pathExpression fallbackSource
              = (fallbackSource, [(ErrorLevel, NetworkCallFailed c)]))
     \<and> (\<forall>body. getGasPrice oracleEndpoint (Unparseable body) pathExpression fallbackSource
              = (fallbackSource, [(ErrorLevel, BodyNotParseable)]))
     \<and> (\<forall>t. getJsonElement t pathExpression = None
            \<longrightarrow> getGasPrice oracleEndpoint (Parsed t) pathExpression fallbackSource
                = (fallbackSource, [(ErrorLevel, PathDoesNotResolve)]))
     \<and> (\<forall>t v. getJsonElement t pathExpression = Some v \<and> numericValue v = None
            \<longrightarrow> getGasPrice oracleEndpoint (Parsed t) pathExpression fallbackSource
                = (fallbackSource, [(ErrorLevel, ValueNotNumeric)]))"
  using assms by (simp add: getGasPrice_def)

theorem getGasPrice_oracle_or_fallback_witness:
  "getGasPrice ''http://localhost/geturl''
      (Parsed (Object [(''status'', Scalar (Text ''1'')),
                       (''result'', Object [(''SafeGasPrice'', Scalar (Text ''18'')),
                                            (''ProposeGasPrice'', Scalar (Text ''39''))])]))
      [Key ''result'', Key ''ProposeGasPrice''] 7
     = (39 * 10 ^ 9, [])
   \<and> getGasPrice ''http://localhost/geturl''
      (Parsed (Object [(''status'', Scalar (Text ''1'')),
                       (''result'', Object [(''SafeGasPrice'', Scalar (Text ''18'')),
                                            (''ProposeGasPrice'', Scalar (Text ''39''))])]))
      [Key ''result'', Key ''wrongpath''] 7
     = (7, [(ErrorLevel, PathDoesNotResolve)])
   \<and> getGasPrice ''http://localhost/geturl'' (Unparseable ''something that is not json response'')
      [Key ''result'', Key ''ProposeGasPrice''] 7
     = (7, [(ErrorLevel, BodyNotParseable)])
   \<and> getGasPrice ''http://localhost:23456'' (NetworkFailed ''ECONNREFUSED'')
      [Key ''result'', Key ''ProposeGasPrice''] 7
     = (7, [(ErrorLevel, NetworkCallFailed ''ECONNREFUSED'')])
   \<and> getGasPrice ''http://localhost/geturl''
      (Parsed (Object [(''result'', Object [(''ProposeGasPrice'', Scalar (Text ''fast''))])]))
      [Key ''result'', Key ''ProposeGasPrice''] 7
     = (7, [(ErrorLevel, ValueNotNumeric)])"
proof -
  let ?t = "Object [(''status'', Scalar (Text ''1'')),
                    (''result'', Object [(''SafeGasPrice'', Scalar (Text ''18'')),
                                         (''ProposeGasPrice'', Scalar (Text ''39''))])]"
  let ?u = "Object [(''result'', Object [(''ProposeGasPrice'', Scalar (Text ''fast''))])]"
  have e: "''http://localhost/geturl'' \<noteq> []" "''http://localhost:23456'' \<noteq> []" by simp_all
  have x1: "getJsonElement ?t [Key ''result'', Key ''ProposeGasPrice''] = Some (Scalar (Text ''39''))"
    by simp
  have n1: "numericValue (Scalar (Text ''39'')) = Some 39"
    by (simp add: decimal_eval)
  have x2: "getJsonElement ?t [Key ''result'', Key ''wrongpath''] = None" by simp
  have x3: "getJsonElement ?u [Key ''result'', Key ''ProposeGasPrice''] = Some (Scalar (Text ''fast''))"
    by simp
  have n3: "numericValue (Scalar (Text ''fast'')) = None"
    by (simp add: decimal_eval)
  note a = getGasPrice_oracle_or_fallback [OF e(1), of "[Key ''result'', Key ''ProposeGasPrice'']" 7]
  note b = getGasPrice_oracle_or_fallback [OF e(1), of "[Key ''result'', Key ''wrongpath'']" 7]
  note c = getGasPrice_oracle_or_fallback [OF e(2), of "[Key ''result'', Key ''ProposeGasPrice'']" 7]
  have "getGasPrice ''http://localhost/geturl'' (Parsed ?t) [Key ''result'', Key ''ProposeGasPrice''] 7
        = (39 * 10 ^ 9, [])"
    using a [THEN conjunct1, rule_format, of ?t "Scalar (Text ''39'')" 39] x1 n1 by simp
  moreover have "getGasPrice ''http://localhost/geturl'' (Parsed ?t) [Key ''result'', Key ''wrongpath''] 7
        = (7, [(ErrorLevel, PathDoesNotResolve)])"
    using b [THEN conjunct2, THEN conjunct2, THEN conjunct2, THEN conjunct1, rule_format, of ?t] x2
    by simp
  moreover have "getGasPrice ''http://localhost/geturl'' (Unparseable ''something that is not json response'')
      [Key ''result'', Key ''ProposeGasPrice''] 7 = (7, [(ErrorLevel, BodyNotParseable)])"
    using a [THEN conjunct2, THEN conjunct2, THEN conjunct1] by simp
  moreover have "getGasPrice ''http://localhost:23456'' (NetworkFailed ''ECONNREFUSED'')
      [Key ''result'', Key ''ProposeGasPrice''] 7 = (7, [(ErrorLevel, NetworkCallFailed ''ECONNREFUSED'')])"
    using c [THEN conjunct2, THEN conjunct1] by simp
  moreover have "getGasPrice ''http://localhost/geturl'' (Parsed ?u) [Key ''result'', Key ''ProposeGasPrice''] 7
        = (7, [(ErrorLevel, ValueNotNumeric)])"
    using a [THEN conjunct2, THEN conjunct2, THEN conjunct2, THEN conjunct2, rule_format,
             of ?u "Scalar (Text ''fast'')"] x3 n3 by simp
  ultimately show ?thesis by (simp only: simp_thms)
qed

end
